theory Spec2Isabelle
  imports Complex_Main "HOL-Library.Word" "HOL-Library.Multiset"
begin

section \<open>Data model (src/src/types.ts)\<close>

text \<open>
  A JavaScript number is an IEEE binary64 value. A finite one is a real number, so numbers
  are modelled as \<^typ>\<open>real\<close> (NaN and the infinities are outside this model), and
  as \<^typ>\<open>int\<close> where the program uses them as coordinates, sizes and indices.
  The arithmetic of the program rounds: every \<open>+\<close>, \<open>-\<close>, \<open>*\<close> and \<open>/\<close> on doubles yields
  the rounding of the exact result, and a decimal literal denotes the rounding of its
  decimal value. The functions below therefore take the rounding \<open>rnd\<close> as their first
  argument and apply it after each such operation and to each such literal, in the
  order in which the source evaluates. Operations whose operands and result are integers
  below \<open>2^53\<close> (differences and products of bytes, pixel indices) are exact in binary64
  and are written without \<open>rnd\<close>.

  A typed array is a view: a byte offset into its underlying buffer and the list of its
  bytes. The output buffer is a buffer of its own (it does not share storage with an
  input image) and is passed through the comparison as explicit state.
\<close>

type_synonym byte = "8 word"

type_synonym rounding = "real \<Rightarrow> real"

text \<open>
  \<open>PixelData = Uint8Array | Uint8ClampedArray\<close>, each with its \<open>byteOffset\<close> and its
  elements. The third constructor stands for any value that \<open>isPixelData\<close> rejects (a
  plain array, a view with wider elements); it only ever reaches the validator. (An
  \<open>Int8Array\<close>, which \<open>isPixelData\<close> would accept, is not a \<open>PixelData\<close> by the declared
  type and is not modelled.)
\<close>

datatype PixelData =
    Uint8Array nat "byte list"
  | Uint8ClampedArray nat "byte list"
  | NotPixelData

record ImageLike =
  data :: PixelData
  width :: int
  height :: int

type_synonym rgb = "real \<times> real \<times> real"

text \<open>Every option is optional in the source; \<open>None\<close> is JavaScript's \<open>undefined\<close>.\<close>

record PixelmatchOptions =
  threshold :: "real option"
  detectAntiAliasing :: "bool option"
  outputData :: "PixelData option"
  diffMask :: "bool option"
  alpha :: "real option"
  aaColor :: "rgb option"
  diffColor :: "rgb option"
  diffColorAlt :: "rgb option"

record PixelmatchResult =
  diffCount :: nat
  diffPercentage :: real
  totalPixels :: int
  aaCount :: nat
  identical :: bool

text \<open>\<open>LegacyPixelmatchOptions\<close>: the options of the positional adapter.\<close>

record LegacyPixelmatchOptions =
  legacy_threshold :: "real option"
  includeAA :: "bool option"
  legacy_alpha :: "real option"
  legacy_aaColor :: "rgb option"
  legacy_diffColor :: "rgb option"
  legacy_diffColorAlt :: "rgb option"
  legacy_diffMask :: "bool option"

text \<open>
  The validator throws \<open>Error\<close> objects that differ in their message; one constructor
  per \<open>throw\<close>, carrying the numbers the message interpolates.
\<close>

datatype error =
    ImageDataExpected
  | OutputDataExpected
  | DimensionsDoNotMatch int int int int
  | SizesDoNotMatch nat nat
  | DataSizeDoesNotMatch int nat
  | OutputSizeDoesNotMatch int nat

text \<open>The four error kinds the specification names, and the kind of each thrown error.\<close>

datatype error_kind = InvalidBufferType | OutputSizeMismatch | DimensionMismatch | SizeMismatch

fun kind :: "error \<Rightarrow> error_kind" where
  "kind ImageDataExpected = InvalidBufferType"
| "kind OutputDataExpected = InvalidBufferType"
| "kind (DimensionsDoNotMatch w1 h1 w2 h2) = DimensionMismatch"
| "kind (SizesDoNotMatch l1 l2) = SizeMismatch"
| "kind (DataSizeDoesNotMatch e l) = SizeMismatch"
| "kind (OutputSizeDoesNotMatch e l) = OutputSizeMismatch"

text \<open>
  What a call of the comparison can throw: an error of the validator, or the
  \<open>RangeError\<close> of the \<open>Uint32Array\<close> constructor.
\<close>

datatype failure = Invalid error | RangeError

section \<open>Typed-array primitives\<close>

fun isPixelData :: "PixelData \<Rightarrow> bool" where
  "isPixelData (Uint8Array off bs) = True"
| "isPixelData (Uint8ClampedArray off bs) = True"
| "isPixelData NotPixelData = False"

fun bytes :: "PixelData \<Rightarrow> byte list" where
  "bytes (Uint8Array off bs) = bs"
| "bytes (Uint8ClampedArray off bs) = bs"
| "bytes NotPixelData = []"

fun byteOffset :: "PixelData \<Rightarrow> nat" where
  "byteOffset (Uint8Array off bs) = off"
| "byteOffset (Uint8ClampedArray off bs) = off"
| "byteOffset NotPixelData = 0"

text \<open>\<open>img[i]\<close> read as a number. Every read of the program is in range once the
  validator has passed; out of range JavaScript yields \<open>undefined\<close>, which this model
  does not represent.\<close>

definition elem :: "byte list \<Rightarrow> int \<Rightarrow> real" where
  "elem img i = real (unat (img ! nat i))"

text \<open>Truncation towards zero, \<open>ToInt32\<close> (the effect of \<open>| 0\<close>) and the remainder
  \<open>%\<close> on integers, whose sign follows the dividend.\<close>

definition trunc :: "real \<Rightarrow> int" where
  "trunc v = (if v < 0 then \<lceil>v\<rceil> else \<lfloor>v\<rfloor>)"

definition toInt32 :: "real \<Rightarrow> int" where
  "toInt32 v = (let t = trunc v mod 2 ^ 32 in if t \<ge> 2 ^ 31 then t - 2 ^ 32 else t)"

definition js_rem :: "int \<Rightarrow> int \<Rightarrow> int" where
  "js_rem a b = sgn a * (\<bar>a\<bar> mod \<bar>b\<bar>)"

text \<open>Storing a number into a typed array: \<open>ToUint8\<close> truncates and wraps modulo 256,
  \<open>ToUint8Clamp\<close> clamps to 0..255 and rounds halves to even.\<close>

definition toUint8 :: "real \<Rightarrow> byte" where
  "toUint8 v = word_of_int (trunc v)"

definition toUint8Clamp :: "real \<Rightarrow> byte" where
  "toUint8Clamp v =
     (if v \<le> 0 then 0
      else if v \<ge> 255 then 255
      else (let f = \<lfloor>v\<rfloor> in
        if v - of_int f < 1 / 2 then word_of_int f
        else if v - of_int f > 1 / 2 then word_of_int (f + 1)
        else if even f then word_of_int f else word_of_int (f + 1)))"

text \<open>\<open>output[i] = v\<close>; a write outside the array is ignored.\<close>

fun store :: "PixelData \<Rightarrow> int \<Rightarrow> real \<Rightarrow> PixelData" where
  "store (Uint8Array off bs) i v =
     Uint8Array off (if 0 \<le> i \<and> i < int (length bs) then bs[nat i := toUint8 v] else bs)"
| "store (Uint8ClampedArray off bs) i v =
     Uint8ClampedArray off
       (if 0 \<le> i \<and> i < int (length bs) then bs[nat i := toUint8Clamp v] else bs)"
| "store NotPixelData i v = NotPixelData"

text \<open>The byte that a store of \<open>v\<close> leaves in a buffer of the same type as \<open>out\<close>.\<close>

fun stored :: "PixelData \<Rightarrow> real \<Rightarrow> byte" where
  "stored (Uint8ClampedArray off bs) v = toUint8Clamp v"
| "stored out v = toUint8 v"

text \<open>The 32-bit elements of a view over \<open>len\<close> pixels: the bytes of each pixel packed
  into one word, least significant byte first.\<close>

definition word_at :: "byte list \<Rightarrow> nat \<Rightarrow> 32 word" where
  "word_at bs i = word_rcat [bs ! (4 * i + 3), bs ! (4 * i + 2), bs ! (4 * i + 1), bs ! (4 * i)]"

definition words :: "byte list \<Rightarrow> int \<Rightarrow> 32 word list" where
  "words bs len = map (word_at bs) [0..<nat len]"

text \<open>
  \<open>new Uint32Array(data.buffer, data.byteOffset, len)\<close>. The constructor throws a
  \<open>RangeError\<close> when the byte offset is not a multiple of the element size 4. (Its other
  check, that \<open>len\<close> elements fit into the buffer, holds once the validator has passed,
  since the view itself has \<open>4 * len\<close> bytes.)
\<close>

definition Uint32Array :: "PixelData \<Rightarrow> int \<Rightarrow> failure + 32 word list" where
  "Uint32Array d len =
     (if byteOffset d mod 4 \<noteq> 0 then Inl RangeError else Inr (words (bytes d) len))"

section \<open>Validation and result (validateInput, buildResult)\<close>

definition validateInput :: "ImageLike \<Rightarrow> ImageLike \<Rightarrow> PixelData option \<Rightarrow> error + unit" where
  "validateInput img1 img2 out =
     (if \<not> isPixelData (data img1) \<or> \<not> isPixelData (data img2) then Inl ImageDataExpected
      else if (case out of None \<Rightarrow> False | Some ob \<Rightarrow> \<not> isPixelData ob) then Inl OutputDataExpected
      else if width img1 \<noteq> width img2 \<or> height img1 \<noteq> height img2
        then Inl (DimensionsDoNotMatch (width img1) (height img1) (width img2) (height img2))
      else if length (bytes (data img1)) \<noteq> length (bytes (data img2))
        then Inl (SizesDoNotMatch (length (bytes (data img1))) (length (bytes (data img2))))
      else (let expected = width img1 * height img1 * 4 in
        if int (length (bytes (data img1))) \<noteq> expected
          then Inl (DataSizeDoesNotMatch expected (length (bytes (data img1))))
        else (case out of
                None \<Rightarrow> Inr ()
              | Some ob \<Rightarrow>
                  if int (length (bytes ob)) \<noteq> expected
                  then Inl (OutputSizeDoesNotMatch expected (length (bytes ob)))
                  else Inr ())))"

definition buildResult :: "rounding \<Rightarrow> nat \<Rightarrow> nat \<Rightarrow> int \<Rightarrow> bool \<Rightarrow> PixelmatchResult" where
  "buildResult rnd dc ac tp ident =
     \<lparr> diffCount = dc,
       diffPercentage = (if tp > 0 then rnd (real dc / real_of_int tp) else 0),
       totalPixels = tp,
       aaCount = ac,
       identical = ident \<rparr>"

section \<open>Colour difference (colorDelta)\<close>

definition colorDelta :: "rounding \<Rightarrow> byte list \<Rightarrow> byte list \<Rightarrow> int \<Rightarrow> int \<Rightarrow> bool \<Rightarrow> real" where
  "colorDelta rnd img1 img2 k m yOnly =
     (let r1 = elem img1 k; g1 = elem img1 (k + 1); b1 = elem img1 (k + 2); a1 = elem img1 (k + 3);
          r2 = elem img2 m; g2 = elem img2 (m + 1); b2 = elem img2 (m + 2); a2 = elem img2 (m + 3);
          dr = r1 - r2; dg = g1 - g2; db = b1 - b2; da = a1 - a2
      in if dr = 0 \<and> dg = 0 \<and> db = 0 \<and> da = 0 then 0
         else
          (let (dr, dg, db) =
                 (if a1 < 255 \<or> a2 < 255 then
                    (let rb = 48 + 159 * real_of_int (js_rem k 2);
                         gb = 48 + 159 * real_of_int
                                (js_rem (toInt32 (rnd (real_of_int k / rnd 1.618033988749895))) 2);
                         bb = 48 + 159 * real_of_int
                                (js_rem (toInt32 (rnd (real_of_int k / rnd 2.618033988749895))) 2)
                     in (rnd ((r1 * a1 - r2 * a2 - rb * da) / 255),
                         rnd ((g1 * a1 - g2 * a2 - gb * da) / 255),
                         rnd ((b1 * a1 - b2 * a2 - bb * da) / 255)))
                  else (dr, dg, db));
               y = rnd (rnd (rnd (dr * rnd 0.29889531) + rnd (dg * rnd 0.58662247))
                        + rnd (db * rnd 0.11448223))
           in if yOnly then y
              else
               (let i = rnd (rnd (rnd (dr * rnd 0.59597799) - rnd (dg * rnd 0.2741761))
                             - rnd (db * rnd 0.32180189));
                    q = rnd (rnd (rnd (dr * rnd 0.21147017) - rnd (dg * rnd 0.52261711))
                             + rnd (db * rnd 0.31114694));
                    delta = rnd (rnd (rnd (rnd (rnd 0.5053 * y) * y) + rnd (rnd (rnd 0.299 * i) * i))
                                 + rnd (rnd (rnd 0.1957 * q) * q))
                in if y > 0 then - delta else delta)))"

section \<open>Anti-aliasing detection (hasManySiblings, antialiased)\<close>

text \<open>Both functions walk the clipped 3x3 window column by column and skip the centre
  with \<open>continue\<close>; the list below is that walk.\<close>

definition window :: "int \<Rightarrow> int \<Rightarrow> int \<Rightarrow> int \<Rightarrow> (int \<times> int) list" where
  "window x1 y1 wd ht =
     (let x0 = max (x1 - 1) 0; y0 = max (y1 - 1) 0;
          x2 = min (x1 + 1) (wd - 1); y2 = min (y1 + 1) (ht - 1)
      in filter (\<lambda>(x, y). \<not> (x = x1 \<and> y = y1))
           (concat (map (\<lambda>x. map (\<lambda>y. (x, y)) [y0..y2]) [x0..x2])))"

text \<open>The initial value of \<open>zeroes\<close>.\<close>

definition zeroes0 :: "int \<Rightarrow> int \<Rightarrow> int \<Rightarrow> int \<Rightarrow> nat" where
  "zeroes0 x1 y1 wd ht =
     (let x0 = max (x1 - 1) 0; y0 = max (y1 - 1) 0;
          x2 = min (x1 + 1) (wd - 1); y2 = min (y1 + 1) (ht - 1)
      in if x1 = x0 \<or> x1 = x2 \<or> y1 = y0 \<or> y1 = y2 then 1 else 0)"

fun siblings_loop :: "32 word list \<Rightarrow> 32 word \<Rightarrow> int \<Rightarrow> (int \<times> int) list \<Rightarrow> nat \<Rightarrow> bool" where
  "siblings_loop img val wd [] zeroes = False"
| "siblings_loop img val wd ((x, y) # ps) zeroes =
     (let zeroes' = zeroes + (if val = img ! nat (y * wd + x) then 1 else 0)
      in if zeroes' > 2 then True else siblings_loop img val wd ps zeroes')"

definition hasManySiblings :: "32 word list \<Rightarrow> int \<Rightarrow> int \<Rightarrow> int \<Rightarrow> int \<Rightarrow> bool" where
  "hasManySiblings img x1 y1 wd ht =
     siblings_loop img (img ! nat (y1 * wd + x1)) wd (window x1 y1 wd ht) (zeroes0 x1 y1 wd ht)"

text \<open>Pass 1 over the deltas of the neighbours, in scan order: \<open>None\<close> is the early
  \<open>return false\<close>, otherwise the final \<open>(min, max)\<close>.\<close>

fun pass1 :: "real list \<Rightarrow> nat \<Rightarrow> real \<Rightarrow> real \<Rightarrow> (real \<times> real) option" where
  "pass1 [] zeroes mn mx = Some (mn, mx)"
| "pass1 (delta # ds) zeroes mn mx =
     (if delta = 0 then (if zeroes + 1 > 2 then None else pass1 ds (zeroes + 1) mn mx)
      else if delta < mn then pass1 ds zeroes delta mx
      else if delta > mx then pass1 ds zeroes mn delta
      else pass1 ds zeroes mn mx)"

text \<open>Pass 2 over the neighbours; \<open>dl\<close> gives the delta of a neighbour.\<close>

fun pass2 :: "((int \<times> int) \<Rightarrow> real) \<Rightarrow> real \<Rightarrow> real \<Rightarrow> 32 word list \<Rightarrow> 32 word list \<Rightarrow>
    int \<Rightarrow> int \<Rightarrow> (int \<times> int) list \<Rightarrow> bool" where
  "pass2 dl mn mx a32 b32 wd ht [] = False"
| "pass2 dl mn mx a32 b32 wd ht ((x, y) # ps) =
     (if (dl (x, y) = mn \<or> dl (x, y) = mx) \<and>
         (hasManySiblings a32 x y wd ht \<or> hasManySiblings b32 x y wd ht)
      then True else pass2 dl mn mx a32 b32 wd ht ps)"

text \<open>The luma delta between the centre \<open>(x1, y1)\<close> and a neighbour.\<close>

definition neighbour_delta :: "rounding \<Rightarrow> byte list \<Rightarrow> int \<Rightarrow> int \<Rightarrow> int \<Rightarrow> (int \<times> int) \<Rightarrow> real" where
  "neighbour_delta rnd img x1 y1 wd = (\<lambda>(x, y).
     colorDelta rnd img img ((y1 * wd + x1) * 4) ((y * wd + x) * 4) True)"

text \<open>The classifier on a given scan order \<open>ns\<close> of the neighbours.\<close>

definition antialiased_scan :: "rounding \<Rightarrow> (int \<times> int) list \<Rightarrow> byte list \<Rightarrow> int \<Rightarrow> int \<Rightarrow>
    int \<Rightarrow> int \<Rightarrow> 32 word list \<Rightarrow> 32 word list \<Rightarrow> bool" where
  "antialiased_scan rnd ns img x1 y1 wd ht a32 b32 =
     (let dl = neighbour_delta rnd img x1 y1 wd in
      case pass1 (map dl ns) (zeroes0 x1 y1 wd ht) 0 0 of
        None \<Rightarrow> False
      | Some (mn, mx) \<Rightarrow>
          if mn = 0 \<or> mx = 0 then False
          else pass2 dl mn mx a32 b32 wd ht ns)"

definition antialiased :: "rounding \<Rightarrow> byte list \<Rightarrow> int \<Rightarrow> int \<Rightarrow> int \<Rightarrow> int \<Rightarrow>
    32 word list \<Rightarrow> 32 word list \<Rightarrow> bool" where
  "antialiased rnd img x1 y1 wd ht a32 b32 =
     antialiased_scan rnd (window x1 y1 wd ht) img x1 y1 wd ht a32 b32"

section \<open>Drawing (drawPixel, drawGrayPixel)\<close>

definition drawPixel :: "PixelData \<Rightarrow> int \<Rightarrow> real \<Rightarrow> real \<Rightarrow> real \<Rightarrow> PixelData" where
  "drawPixel out pos r g b =
     store (store (store (store out (pos + 0) r) (pos + 1) g) (pos + 2) b) (pos + 3) 255"

definition drawGrayPixel :: "rounding \<Rightarrow> byte list \<Rightarrow> int \<Rightarrow> real \<Rightarrow> PixelData \<Rightarrow> PixelData" where
  "drawGrayPixel rnd img i al out =
     (let luma = rnd (rnd (rnd (elem img i * rnd 0.29889531)
                           + rnd (elem img (i + 1) * rnd 0.58662247))
                      + rnd (elem img (i + 2) * rnd 0.11448223));
          val = rnd (255 + rnd (rnd (rnd (rnd (luma - 255) * al) * elem img (i + 3)) / 255))
      in drawPixel out i val val val)"

section \<open>The comparison (pixelmatch)\<close>

text \<open>The locals of \<open>pixelmatch\<close> that the pixel loop reads, and the rounding \<open>fl\<close> of
  its arithmetic.\<close>

record Locals =
  fl :: rounding
  data1 :: "byte list"
  data2 :: "byte list"
  wd :: int
  ht :: int
  a32 :: "32 word list"
  b32 :: "32 word list"
  maxDelta :: real
  detectAA :: bool
  diffMaskL :: bool
  alphaL :: real
  aaC :: rgb
  diffC :: rgb
  altC :: rgb

text \<open>\<open>delta\<close> of the pixel at \<open>(x, y)\<close>, and whether it is an anti-aliased pixel.\<close>

definition pixel_delta :: "Locals \<Rightarrow> (int \<times> int) \<Rightarrow> real" where
  "pixel_delta L = (\<lambda>(x, y).
     (let i = y * wd L + x; pos = i * 4
      in if a32 L ! nat i = b32 L ! nat i then 0
         else colorDelta (fl L) (data1 L) (data2 L) pos pos False))"

definition isAA :: "Locals \<Rightarrow> (int \<times> int) \<Rightarrow> bool" where
  "isAA L = (\<lambda>(x, y).
     detectAA L \<and>
     (antialiased (fl L) (data1 L) x y (wd L) (ht L) (a32 L) (b32 L) \<or>
      antialiased (fl L) (data2 L) x y (wd L) (ht L) (b32 L) (a32 L)))"

text \<open>One iteration of the loop body on the state \<open>(diff, aaCount, output)\<close>.\<close>

definition pixel_step :: "Locals \<Rightarrow> (int \<times> int) \<Rightarrow> nat \<times> nat \<times> PixelData option \<Rightarrow>
    nat \<times> nat \<times> PixelData option" where
  "pixel_step L p = (\<lambda>(diff, aac, out).
     (let pos = (snd p * wd L + fst p) * 4;
          delta = pixel_delta L p
      in if \<bar>delta\<bar> > maxDelta L then
           (if isAA L p then
              (diff, aac + 1,
               if \<not> diffMaskL L
               then map_option (\<lambda>ob. case aaC L of (r, g, b) \<Rightarrow> drawPixel ob pos r g b) out
               else out)
            else
              (diff + 1, aac,
               map_option (\<lambda>ob.
                 if delta < 0 then (case altC L of (r, g, b) \<Rightarrow> drawPixel ob pos r g b)
                 else (case diffC L of (r, g, b) \<Rightarrow> drawPixel ob pos r g b)) out))
         else
           (diff, aac,
            if \<not> diffMaskL L
            then map_option (drawGrayPixel (fl L) (data1 L) pos (alphaL L)) out
            else out)))"

text \<open>The rows from top to bottom, each from left to right.\<close>

definition pixels :: "int \<Rightarrow> int \<Rightarrow> (int \<times> int) list" where
  "pixels w h = concat (map (\<lambda>y. map (\<lambda>x. (x, y)) [0..w - 1]) [0..h - 1])"

fun scan :: "Locals \<Rightarrow> (int \<times> int) list \<Rightarrow> nat \<times> nat \<times> PixelData option \<Rightarrow>
    nat \<times> nat \<times> PixelData option" where
  "scan L [] s = s"
| "scan L (p # ps) s = scan L ps (pixel_step L p s)"

text \<open>The fast path's loop \<open>for (i = 0; i < len; i++) drawGrayPixel(data1, 4 * i, alpha, output)\<close>.\<close>

fun gray_all :: "rounding \<Rightarrow> byte list \<Rightarrow> real \<Rightarrow> int list \<Rightarrow> PixelData \<Rightarrow> PixelData" where
  "gray_all rnd img a [] out = out"
| "gray_all rnd img a (i # is) out = gray_all rnd img a is (drawGrayPixel rnd img (4 * i) a out)"

text \<open>The first loop: \<open>identical\<close> stays true iff no word differs.\<close>

definition words_identical :: "32 word list \<Rightarrow> 32 word list \<Rightarrow> int \<Rightarrow> bool" where
  "words_identical a b len = list_all (\<lambda>i. a ! i = b ! i) [0..<nat len]"

definition or_default :: "'a \<Rightarrow> 'a option \<Rightarrow> 'a" where
  "or_default d v = (case v of None \<Rightarrow> d | Some x \<Rightarrow> x)"

text \<open>The options with their defaults, \<open>maxDelta\<close>, and the two word arrays \<open>a\<close>, \<open>b\<close>.\<close>

definition locals_of :: "rounding \<Rightarrow> ImageLike \<Rightarrow> ImageLike \<Rightarrow> PixelmatchOptions \<Rightarrow>
    32 word list \<Rightarrow> 32 word list \<Rightarrow> Locals" where
  "locals_of rnd img1 img2 options a b =
     (let th = or_default (rnd 0.1) (threshold options);
          dc = or_default (255, 0, 0) (diffColor options)
      in \<lparr> fl = rnd,
           data1 = bytes (data img1), data2 = bytes (data img2),
           wd = width img1, ht = height img1,
           a32 = a, b32 = b,
           maxDelta = rnd (rnd (35215 * th) * th),
           detectAA = or_default True (detectAntiAliasing options),
           diffMaskL = or_default False (diffMask options),
           alphaL = or_default (rnd 0.1) (alpha options),
           aaC = or_default (255, 255, 0) (aaColor options),
           diffC = dc,
           altC = or_default dc (diffColorAlt options) \<rparr>)"

text \<open>
  The comparison. Both kinds of error are thrown before the first write to the output
  buffer, so an error result carries no buffer: the caller's buffer is as it was.
\<close>

definition pixelmatch :: "rounding \<Rightarrow> ImageLike \<Rightarrow> ImageLike \<Rightarrow> PixelmatchOptions \<Rightarrow>
    failure + (PixelmatchResult \<times> PixelData option)" where
  "pixelmatch rnd img1 img2 options =
     (case validateInput img1 img2 (outputData options) of
        Inl e \<Rightarrow> Inl (Invalid e)
      | Inr _ \<Rightarrow>
         (let len = width img1 * height img1 in
          case Uint32Array (data img1) len of
            Inl f \<Rightarrow> Inl f
          | Inr a \<Rightarrow>
             (case Uint32Array (data img2) len of
                Inl f \<Rightarrow> Inl f
              | Inr b \<Rightarrow>
                 (let L = locals_of rnd img1 img2 options a b
                  in if words_identical a b len then
                       Inr (buildResult rnd 0 0 len True,
                            if \<not> diffMaskL L
                            then map_option (gray_all rnd (data1 L) (alphaL L) [0..len - 1])
                                   (outputData options)
                            else outputData options)
                     else
                       (case scan L (pixels (wd L) (ht L)) (0, 0, outputData options) of
                          (diff, aac, out) \<Rightarrow> Inr (buildResult rnd diff aac len False, out))))))"

section \<open>The legacy adapter (src/src/compat.ts)\<close>

text \<open>The adapter calls the package's default export; here that is the JavaScript
  engine above (the native binding is not part of these sources).\<close>

definition compat_pixelmatch :: "rounding \<Rightarrow> PixelData \<Rightarrow> PixelData \<Rightarrow> PixelData option \<Rightarrow>
    int \<Rightarrow> int \<Rightarrow> LegacyPixelmatchOptions \<Rightarrow> failure + (nat \<times> PixelData option)" where
  "compat_pixelmatch rnd img1 img2 out w h options =
     (case pixelmatch rnd \<lparr> data = img1, width = w, height = h \<rparr>
                      \<lparr> data = img2, width = w, height = h \<rparr>
             \<lparr> threshold = legacy_threshold options,
               detectAntiAliasing = (case includeAA options of None \<Rightarrow> None | Some b \<Rightarrow> Some (\<not> b)),
               outputData = out,
               diffMask = legacy_diffMask options,
               alpha = legacy_alpha options,
               aaColor = legacy_aaColor options,
               diffColor = legacy_diffColor options,
               diffColorAlt = legacy_diffColorAlt options \<rparr> of
        Inl e \<Rightarrow> Inl e
      | Inr (result, out') \<Rightarrow> Inr (diffCount result, out'))"

section \<open>Notions used to state the properties\<close>

text \<open>
  A view whose byte offset is a multiple of 4, and the locals of the pixel loop for the
  images of such views: the packed words are those of the two byte buffers.
\<close>

definition aligned :: "ImageLike \<Rightarrow> bool" where
  "aligned img = (byteOffset (data img) mod 4 = 0)"

definition loop_locals :: "rounding \<Rightarrow> ImageLike \<Rightarrow> ImageLike \<Rightarrow> PixelmatchOptions \<Rightarrow> Locals" where
  "loop_locals rnd img1 img2 options =
     locals_of rnd img1 img2 options
       (words (bytes (data img1)) (width img1 * height img1))
       (words (bytes (data img2)) (width img1 * height img1))"

text \<open>A pixel exceeds the threshold; it is counted as a difference; it is counted as
  anti-aliased. These are the three conditions the loop body branches on.\<close>

definition exceeds :: "Locals \<Rightarrow> (int \<times> int) \<Rightarrow> bool" where
  "exceeds L = (\<lambda>p. \<bar>pixel_delta L p\<bar> > maxDelta L)"

definition counted_diff :: "Locals \<Rightarrow> (int \<times> int) \<Rightarrow> bool" where
  "counted_diff L = (\<lambda>p. exceeds L p \<and> \<not> isAA L p)"

definition counted_aa :: "Locals \<Rightarrow> (int \<times> int) \<Rightarrow> bool" where
  "counted_aa L = (\<lambda>p. exceeds L p \<and> isAA L p)"

text \<open>The five checks of the validator as conditions on its input, and the kind of
  error (if any) a validation ends with.\<close>

definition bad_types :: "ImageLike \<Rightarrow> ImageLike \<Rightarrow> PixelData option \<Rightarrow> bool" where
  "bad_types img1 img2 out =
     (\<not> isPixelData (data img1) \<or> \<not> isPixelData (data img2) \<or>
      (case out of None \<Rightarrow> False | Some ob \<Rightarrow> \<not> isPixelData ob))"

definition bad_output_length :: "ImageLike \<Rightarrow> PixelData option \<Rightarrow> bool" where
  "bad_output_length img1 out =
     (case out of None \<Rightarrow> False
      | Some ob \<Rightarrow> int (length (bytes ob)) \<noteq> width img1 * height img1 * 4)"

definition bad_dimensions :: "ImageLike \<Rightarrow> ImageLike \<Rightarrow> bool" where
  "bad_dimensions img1 img2 = (width img1 \<noteq> width img2 \<or> height img1 \<noteq> height img2)"

definition bad_lengths :: "ImageLike \<Rightarrow> ImageLike \<Rightarrow> bool" where
  "bad_lengths img1 img2 = (length (bytes (data img1)) \<noteq> length (bytes (data img2)))"

definition bad_geometry :: "ImageLike \<Rightarrow> bool" where
  "bad_geometry img1 = (int (length (bytes (data img1))) \<noteq> width img1 * height img1 * 4)"

definition result_kind :: "error + unit \<Rightarrow> error_kind option" where
  "result_kind r = (case r of Inl e \<Rightarrow> Some (kind e) | Inr _ \<Rightarrow> None)"

text \<open>The options the specification says the legacy adapter runs the comparison with:
  \<open>detectAntiAliasing\<close> is the negation of \<open>includeAA\<close>, and the default (true) when
  \<open>includeAA\<close> is absent; everything else is passed through.\<close>

definition legacy_core_options :: "LegacyPixelmatchOptions \<Rightarrow> PixelData option \<Rightarrow> PixelmatchOptions" where
  "legacy_core_options lo out =
     \<lparr> threshold = legacy_threshold lo,
       detectAntiAliasing = Some (case includeAA lo of None \<Rightarrow> True | Some b \<Rightarrow> \<not> b),
       outputData = out,
       diffMask = legacy_diffMask lo,
       alpha = legacy_alpha lo,
       aaColor = legacy_aaColor lo,
       diffColor = legacy_diffColor lo,
       diffColorAlt = legacy_diffColorAlt lo \<rparr>"

text \<open>
  The parts of \<open>colorDelta\<close> by name, each computed as the program computes it: whether
  the four channel differences are all zero; the channel differences \<open>dr, dg, db\<close> after
  the optional blend against the background; the three coordinates \<open>y, i, q\<close>; the
  squared distance. Sample A is brighter than sample B when the luma difference (A minus
  B) that \<open>colorDelta\<close> returns in luma-only mode is positive, and B is then darker than A.
\<close>

definition all_channels_equal :: "byte list \<Rightarrow> byte list \<Rightarrow> int \<Rightarrow> int \<Rightarrow> bool" where
  "all_channels_equal img1 img2 k m =
     (elem img1 k - elem img2 m = 0 \<and> elem img1 (k + 1) - elem img2 (m + 1) = 0 \<and>
      elem img1 (k + 2) - elem img2 (m + 2) = 0 \<and> elem img1 (k + 3) - elem img2 (m + 3) = 0)"

definition channel_diffs :: "rounding \<Rightarrow> byte list \<Rightarrow> byte list \<Rightarrow> int \<Rightarrow> int \<Rightarrow> real \<times> real \<times> real" where
  "channel_diffs rnd img1 img2 k m =
     (let r1 = elem img1 k; g1 = elem img1 (k + 1); b1 = elem img1 (k + 2); a1 = elem img1 (k + 3);
          r2 = elem img2 m; g2 = elem img2 (m + 1); b2 = elem img2 (m + 2); a2 = elem img2 (m + 3);
          da = a1 - a2
      in if a1 < 255 \<or> a2 < 255 then
           (let rb = 48 + 159 * real_of_int (js_rem k 2);
                gb = 48 + 159 * real_of_int
                       (js_rem (toInt32 (rnd (real_of_int k / rnd 1.618033988749895))) 2);
                bb = 48 + 159 * real_of_int
                       (js_rem (toInt32 (rnd (real_of_int k / rnd 2.618033988749895))) 2)
            in (rnd ((r1 * a1 - r2 * a2 - rb * da) / 255),
                rnd ((g1 * a1 - g2 * a2 - gb * da) / 255),
                rnd ((b1 * a1 - b2 * a2 - bb * da) / 255)))
         else (r1 - r2, g1 - g2, b1 - b2))"

definition yiq_y :: "rounding \<Rightarrow> real \<times> real \<times> real \<Rightarrow> real" where
  "yiq_y rnd = (\<lambda>(dr, dg, db).
     rnd (rnd (rnd (dr * rnd 0.29889531) + rnd (dg * rnd 0.58662247)) + rnd (db * rnd 0.11448223)))"

definition yiq_i :: "rounding \<Rightarrow> real \<times> real \<times> real \<Rightarrow> real" where
  "yiq_i rnd = (\<lambda>(dr, dg, db).
     rnd (rnd (rnd (dr * rnd 0.59597799) - rnd (dg * rnd 0.2741761)) - rnd (db * rnd 0.32180189)))"

definition yiq_q :: "rounding \<Rightarrow> real \<times> real \<times> real \<Rightarrow> real" where
  "yiq_q rnd = (\<lambda>(dr, dg, db).
     rnd (rnd (rnd (dr * rnd 0.21147017) - rnd (dg * rnd 0.52261711)) + rnd (db * rnd 0.31114694)))"

definition squared_yiq :: "rounding \<Rightarrow> real \<times> real \<times> real \<Rightarrow> real" where
  "squared_yiq rnd d =
     rnd (rnd (rnd (rnd (rnd 0.5053 * yiq_y rnd d) * yiq_y rnd d)
               + rnd (rnd (rnd 0.299 * yiq_i rnd d) * yiq_i rnd d))
          + rnd (rnd (rnd 0.1957 * yiq_q rnd d) * yiq_q rnd d))"

definition brighter :: "rounding \<Rightarrow> byte list \<Rightarrow> int \<Rightarrow> byte list \<Rightarrow> int \<Rightarrow> bool" where
  "brighter rnd imgA k imgB m = (colorDelta rnd imgA imgB k m True > 0)"

definition darker :: "rounding \<Rightarrow> byte list \<Rightarrow> int \<Rightarrow> byte list \<Rightarrow> int \<Rightarrow> bool" where
  "darker rnd imgB m imgA k = brighter rnd imgA k imgB m"

text \<open>
  The quantities of pass 1 of the classifier, stated without reference to a scan order:
  whether the pixel is on the image border, the count of zero deltas (starting at 1 on
  the border), and the most negative and most positive neighbour delta (or 0).
\<close>

definition touches_border :: "int \<Rightarrow> int \<Rightarrow> int \<Rightarrow> int \<Rightarrow> bool" where
  "touches_border x1 y1 w h = (x1 = 0 \<or> x1 = w - 1 \<or> y1 = 0 \<or> y1 = h - 1)"

definition zero_count :: "rounding \<Rightarrow> byte list \<Rightarrow> int \<Rightarrow> int \<Rightarrow> int \<Rightarrow> int \<Rightarrow> nat" where
  "zero_count rnd img x1 y1 w h =
     (if touches_border x1 y1 w h then 1 else 0) +
     length (filter (\<lambda>n. neighbour_delta rnd img x1 y1 w n = 0) (window x1 y1 w h))"

definition min_delta :: "rounding \<Rightarrow> byte list \<Rightarrow> int \<Rightarrow> int \<Rightarrow> int \<Rightarrow> int \<Rightarrow> real" where
  "min_delta rnd img x1 y1 w h =
     Min (set (0 # map (neighbour_delta rnd img x1 y1 w) (window x1 y1 w h)))"

definition max_delta :: "rounding \<Rightarrow> byte list \<Rightarrow> int \<Rightarrow> int \<Rightarrow> int \<Rightarrow> int \<Rightarrow> real" where
  "max_delta rnd img x1 y1 w h =
     Max (set (0 # map (neighbour_delta rnd img x1 y1 w) (window x1 y1 w h)))"

text \<open>
  For the output: the colour a counted pixel is drawn with, the pixel that owns byte \<open>j\<close>
  of the output, drawing a colour triple, and the gray level of a sample blended with
  white by \<open>al\<close>.
\<close>

definition diff_colour :: "Locals \<Rightarrow> (int \<times> int) \<Rightarrow> rgb" where
  "diff_colour L p = (if pixel_delta L p < 0 then altC L else diffC L)"

definition pixel_of_byte :: "int \<Rightarrow> nat \<Rightarrow> int \<times> int" where
  "pixel_of_byte w j = ((int j div 4) mod w, (int j div 4) div w)"

definition paint :: "PixelData \<Rightarrow> int \<Rightarrow> rgb \<Rightarrow> PixelData" where
  "paint ob pos c = (case c of (r, g, b) \<Rightarrow> drawPixel ob pos r g b)"

definition gray_level :: "rounding \<Rightarrow> byte list \<Rightarrow> int \<Rightarrow> real \<Rightarrow> real" where
  "gray_level rnd img i al =
     (let luma = rnd (rnd (rnd (elem img i * rnd 0.29889531)
                           + rnd (elem img (i + 1) * rnd 0.58662247))
                      + rnd (elem img (i + 2) * rnd 0.11448223))
      in rnd (255 + rnd (rnd (rnd (rnd (luma - 255) * al) * elem img (i + 3)) / 255)))"

section \<open>IEEE binary64 rounding\<close>

text \<open>
  The finite binary64 numbers are the reals \<open>n * 2^k\<close> with an integer \<open>n\<close> of magnitude
  below \<open>2^53\<close> and \<open>k \<ge> -1074\<close> (and \<open>k \<le> 971\<close>; overflow to infinity is outside this model,
  so the exponent is left unbounded above). A binary64 rounding is a monotone function
  into these numbers that leaves each of them unchanged; the properties below are
  proved for every such function. \<open>round_double\<close> is the rounding of the default IEEE
  mode, to the nearest number with ties to the even significand: \<open>expo x\<close> is the
  exponent of the binade of \<open>x\<close> (that of the subnormal range for a small \<open>x\<close>), and
  \<open>ulp x\<close> the spacing of the binary64 numbers there.
\<close>

definition representable :: "real \<Rightarrow> bool" where
  "representable x = (\<exists>n k. \<bar>n\<bar> < 2 ^ 53 \<and> - 1074 \<le> k \<and> x = of_int n * 2 powi k)"

definition binary64_rounding :: "rounding \<Rightarrow> bool" where
  "binary64_rounding rnd =
     (mono rnd \<and> (\<forall>x. representable x \<longrightarrow> rnd x = x) \<and> (\<forall>x. representable (rnd x)))"

definition on_grid :: "int \<Rightarrow> real \<Rightarrow> bool" where
  "on_grid k x = (\<exists>n::int. x = of_int n * 2 powi k)"

definition rne :: "real \<Rightarrow> int" where
  "rne v = (let f = \<lfloor>v\<rfloor> in
     if v - of_int f < 1 / 2 then f
     else if v - of_int f > 1 / 2 then f + 1
     else if even f then f else f + 1)"

definition expo :: "real \<Rightarrow> int" where
  "expo x = max \<lfloor>log 2 \<bar>x\<bar>\<rfloor> (- 1022)"

definition ulp :: "real \<Rightarrow> real" where
  "ulp x = 2 powi (expo x - 52)"

definition round_double :: "real \<Rightarrow> real" where
  "round_double x = sgn x * (of_int (rne (\<bar>x\<bar> / ulp x)) * ulp x)"

section \<open>Counting lemmas for the pixel loop\<close>

lemma pixel_step_diff:
  "fst (pixel_step L p s) = fst s + (if counted_diff L p then 1 else 0)"
  by (cases s) (simp add: pixel_step_def counted_diff_def exceeds_def Let_def)

lemma pixel_step_aa:
  "fst (snd (pixel_step L p s)) = fst (snd s) + (if counted_aa L p then 1 else 0)"
  by (cases s) (simp add: pixel_step_def counted_aa_def exceeds_def Let_def)

lemma scan_diff: "fst (scan L ps s) = fst s + length (filter (counted_diff L) ps)"
  by (induction ps arbitrary: s) (simp_all add: pixel_step_diff)

lemma scan_aa: "fst (snd (scan L ps s)) = fst (snd s) + length (filter (counted_aa L) ps)"
  by (induction ps arbitrary: s) (simp_all add: pixel_step_aa)

lemma pixel_step_no_output: "snd (snd (pixel_step L p (d, a, None))) = None"
  by (simp add: pixel_step_def Let_def)

lemma scan_no_output: "snd (snd s) = None \<Longrightarrow> snd (snd (scan L ps s)) = None"
proof (induction ps arbitrary: s)
  case Nil
  then show ?case by simp
next
  case (Cons p ps)
  obtain d a out where s: "s = (d, a, out)" by (cases s) auto
  with Cons.prems have "snd (snd (pixel_step L p s)) = None"
    by (simp add: pixel_step_no_output)
  then show ?case by (simp add: Cons.IH)
qed

lemma filter_split_length:
  "length (filter P xs) =
   length (filter (\<lambda>x. P x \<and> Q x) xs) + length (filter (\<lambda>x. P x \<and> \<not> Q x) xs)"
  by (induction xs) auto

lemma filter_mono_length:
  "(\<And>x. x \<in> set xs \<Longrightarrow> P x \<Longrightarrow> Q x) \<Longrightarrow> length (filter P xs) \<le> length (filter Q xs)"
  by (induction xs) auto

lemma counted_sum:
  "length (filter (counted_diff L) ps) + length (filter (counted_aa L) ps) =
   length (filter (exceeds L) ps)"
  using filter_split_length [of "exceeds L" ps "isAA L"]
  by (simp add: counted_diff_def counted_aa_def)

text \<open>
  What \<open>pixelmatch\<close> does once the validator has passed: with a view whose byte offset
  is not a multiple of 4 it throws the \<open>RangeError\<close>; otherwise it returns.
\<close>

lemma pixelmatch_misaligned:
  assumes "validateInput img1 img2 (outputData options) = Inr ()"
    and "\<not> aligned img1 \<or> \<not> aligned img2"
  shows "pixelmatch rnd img1 img2 options = Inl RangeError"
  using assms by (auto simp: pixelmatch_def Uint32Array_def aligned_def Let_def)

lemma pixelmatch_aligned:
  assumes "validateInput img1 img2 (outputData options) = Inr ()"
    and "aligned img1" "aligned img2"
  shows "pixelmatch rnd img1 img2 options =
     (let L = loop_locals rnd img1 img2 options; len = width img1 * height img1
      in if words_identical (a32 L) (b32 L) len then
           Inr (buildResult rnd 0 0 len True,
                if \<not> diffMaskL L
                then map_option (gray_all rnd (data1 L) (alphaL L) [0..len - 1]) (outputData options)
                else outputData options)
         else
           Inr (buildResult rnd (fst (scan L (pixels (wd L) (ht L)) (0, 0, outputData options)))
                  (fst (snd (scan L (pixels (wd L) (ht L)) (0, 0, outputData options)))) len False,
                snd (snd (scan L (pixels (wd L) (ht L)) (0, 0, outputData options)))))"
proof -
  have l: "a32 (locals_of rnd img1 img2 options a b) = a" "b32 (locals_of rnd img1 img2 options a b) = b"
    for a b by (simp_all add: locals_of_def Let_def)
  show ?thesis
    using assms
    by (simp add: pixelmatch_def Uint32Array_def aligned_def loop_locals_def l Let_def
          split: prod.splits)
qed

lemma pixelmatch_locals_cong:
  "(\<And>a b. locals_of rnd img1 img2 o1 a b = locals_of rnd img1 img2 o2 a b) \<Longrightarrow>
   outputData o1 = outputData o2 \<Longrightarrow>
   pixelmatch rnd img1 img2 o1 = pixelmatch rnd img1 img2 o2"
  by (simp add: pixelmatch_def Let_def split: sum.splits)

lemma pixels_set: "set (pixels w h) = {(x, y). 0 \<le> x \<and> x < w \<and> 0 \<le> y \<and> y < h}"
  by (auto simp: pixels_def)

lemma pixel_index_range:
  assumes "0 \<le> x" "x < w" "0 \<le> y" "y < (h::int)"
  shows "0 \<le> y * w + x \<and> y * w + x < w * h"
proof -
  have "y * w \<le> (h - 1) * w" using assms by (intro mult_right_mono) auto
  then have "y * w + x < (h - 1) * w + w" using assms by linarith
  also have "\<dots> = w * h" by (simp add: algebra_simps)
  finally show ?thesis using assms by simp
qed

text \<open>
  Reads stay inside the buffers: the neighbours of a pixel of the image are pixels of
  the image, and a pixel of the image has its four bytes inside a buffer of
  \<open>width * height * 4\<close> bytes and its word inside the array of \<open>width * height\<close> words.
\<close>

lemma window_in_image:
  assumes "(x, y) \<in> set (window x1 y1 w h)" "0 \<le> x1" "x1 < w" "0 \<le> y1" "y1 < h"
  shows "0 \<le> x \<and> x < w \<and> 0 \<le> y \<and> y < h"
  using assms by (auto simp: window_def Let_def)

lemma sample_in_range:
  assumes "0 \<le> x" "x < w" "0 \<le> y" "y < h" "int (length img) = w * h * 4"
  shows "0 \<le> (y * w + x) * 4 \<and> (y * w + x) * 4 + 3 < int (length img)"
proof -
  define i n where "i = y * w + x" and "n = w * h"
  have "0 \<le> i \<and> i < n" unfolding i_def n_def by (rule pixel_index_range [OF assms(1-4)])
  moreover have "int (length img) = n * 4" unfolding n_def by (rule assms(5))
  ultimately have "0 \<le> i * 4 \<and> i * 4 + 3 < int (length img)" by linarith
  then show ?thesis unfolding i_def .
qed

lemma word_in_range:
  assumes "0 \<le> x" "x < w" "0 \<le> y" "y < h"
  shows "nat (y * w + x) < length (words bs (w * h))"
  using pixel_index_range [OF assms] by (simp add: words_def)

section \<open>Properties of every binary64 rounding\<close>

lemma abs_int_less_real: "\<bar>n\<bar> < (2::int) ^ 53 \<longleftrightarrow> \<bar>real_of_int n\<bar> < 2 ^ 53"
proof -
  have "\<bar>real_of_int n\<bar> < 2 ^ 53 \<longleftrightarrow> real_of_int \<bar>n\<bar> < real_of_int (2 ^ 53)" by simp
  also have "\<dots> \<longleftrightarrow> \<bar>n\<bar> < 2 ^ 53" by (rule of_int_less_iff)
  finally show ?thesis by simp
qed

lemma representable_int_powi:
  "\<bar>n\<bar> < 2 ^ 53 \<Longrightarrow> - 1074 \<le> k \<Longrightarrow> representable (of_int n * 2 powi k)"
  unfolding representable_def by blast

lemma representable_0: "representable 0"
  using representable_int_powi [of 0 0] by simp

lemma representable_powi: "- 1074 \<le> k \<Longrightarrow> representable (2 powi k)"
  using representable_int_powi [of 1 k] by simp

lemma representable_minus: "representable x \<Longrightarrow> representable (- x)"
proof -
  assume "representable x"
  then obtain n k where nk: "\<bar>n\<bar> < (2::int) ^ 53" "- 1074 \<le> k" "x = of_int n * 2 powi k"
    unfolding representable_def by blast
  then have "\<bar>- n\<bar> < (2::int) ^ 53" "- x = of_int (- n) * 2 powi k" by simp_all
  with nk(2) show ?thesis unfolding representable_def by blast
qed

lemma b64_mono: "binary64_rounding rnd \<Longrightarrow> x \<le> y \<Longrightarrow> rnd x \<le> rnd y"
  unfolding binary64_rounding_def by (blast dest: monoD)

lemma b64_fix: "binary64_rounding rnd \<Longrightarrow> representable x \<Longrightarrow> rnd x = x"
  unfolding binary64_rounding_def by blast

lemma b64_representable: "binary64_rounding rnd \<Longrightarrow> representable (rnd x)"
  unfolding binary64_rounding_def by blast

lemma b64_mono_zero: "binary64_rounding rnd \<Longrightarrow> mono rnd \<and> rnd 0 = 0"
  using b64_fix [OF _ representable_0] unfolding binary64_rounding_def by blast

lemma b64_lower: "binary64_rounding rnd \<Longrightarrow> representable a \<Longrightarrow> a \<le> x \<Longrightarrow> a \<le> rnd x"
  using b64_mono [of rnd a x] b64_fix [of rnd a] by simp

lemma b64_upper: "binary64_rounding rnd \<Longrightarrow> representable b \<Longrightarrow> x \<le> b \<Longrightarrow> rnd x \<le> b"
  using b64_mono [of rnd x b] b64_fix [of rnd b] by simp

lemma b64_nonneg: "binary64_rounding rnd \<Longrightarrow> 0 \<le> x \<Longrightarrow> 0 \<le> rnd x"
  by (rule b64_lower [OF _ representable_0])

lemma b64_nonpos: "binary64_rounding rnd \<Longrightarrow> x \<le> 0 \<Longrightarrow> rnd x \<le> 0"
  by (rule b64_upper [OF _ representable_0])

text \<open>No underflow to zero above the least positive number: a lower bound \<open>2^k\<close> on the
  magnitude is kept by the rounding.\<close>

lemma b64_abs_lower:
  assumes "binary64_rounding rnd" "- 1074 \<le> k" "2 powi k \<le> \<bar>x\<bar>"
  shows "2 powi k \<le> \<bar>rnd x\<bar>"
proof (cases "0 \<le> x")
  case True
  with assms(3) have "2 powi k \<le> x" by simp
  then have "2 powi k \<le> rnd x"
    by (rule b64_lower [OF assms(1) representable_powi [OF assms(2)]])
  then show ?thesis by simp
next
  case False
  with assms(3) have "x \<le> - (2 powi k)" by simp
  then have "rnd x \<le> - (2 powi k)"
    by (rule b64_upper [OF assms(1) representable_minus [OF representable_powi [OF assms(2)]]])
  then show ?thesis by simp
qed

text \<open>The multiples of \<open>2^k\<close>.\<close>

lemma on_grid_0: "on_grid k 0"
  unfolding on_grid_def by (rule exI [of _ 0]) simp

lemma on_grid_add: "on_grid k x \<Longrightarrow> on_grid k y \<Longrightarrow> on_grid k (x + y)"
proof -
  assume "on_grid k x" "on_grid k y"
  then obtain n m :: int where "x = of_int n * 2 powi k" "y = of_int m * 2 powi k"
    unfolding on_grid_def by blast
  then have "x + y = of_int (n + m) * 2 powi k" by (simp add: algebra_simps)
  then show ?thesis unfolding on_grid_def by blast
qed

lemma on_grid_minus: "on_grid k x \<Longrightarrow> on_grid k (- x)"
proof -
  assume "on_grid k x"
  then obtain n :: int where "x = of_int n * 2 powi k" unfolding on_grid_def by blast
  then have "- x = of_int (- n) * 2 powi k" by simp
  then show ?thesis unfolding on_grid_def by blast
qed

lemma on_grid_diff: "on_grid k x \<Longrightarrow> on_grid k y \<Longrightarrow> on_grid k (x - y)"
  using on_grid_add [of k x "- y"] on_grid_minus [of k y] by simp

lemma on_grid_coarser:
  assumes "on_grid j x" "k \<le> j"
  shows "on_grid k x"
proof -
  from assms(1) obtain n :: int where x: "x = of_int n * 2 powi j" unfolding on_grid_def by blast
  have "(2::real) powi j = 2 powi (j - k) * 2 powi k"
    using power_int_add [of "2::real" "j - k" k] by simp
  also have "(2::real) powi (j - k) = 2 ^ nat (j - k)"
    using assms(2) by (simp add: power_int_def)
  finally have "x = of_int (n * 2 ^ nat (j - k)) * 2 powi k" using x by simp
  then show ?thesis unfolding on_grid_def by blast
qed

lemma on_grid_nonzero:
  assumes "on_grid k x" "x \<noteq> 0"
  shows "2 powi k \<le> \<bar>x\<bar>"
proof -
  from assms(1) obtain n :: int where x: "x = of_int n * 2 powi k" unfolding on_grid_def by blast
  with assms(2) have "n \<noteq> 0" by auto
  then have "1 \<le> \<bar>real_of_int n\<bar>" by linarith
  then have "1 * 2 powi k \<le> \<bar>real_of_int n\<bar> * 2 powi k"
    by (intro mult_right_mono) simp_all
  then show ?thesis by (simp add: x abs_mult)
qed

lemma representable_on_grid:
  assumes "representable y" "2 powi e \<le> \<bar>y\<bar>"
  shows "on_grid (e - 52) y"
proof -
  from assms(1) obtain n k where nk: "\<bar>n\<bar> < (2::int) ^ 53" "- 1074 \<le> k" "y = of_int n * 2 powi k"
    unfolding representable_def by blast
  have "\<bar>real_of_int n\<bar> < 2 ^ 53" using nk(1) by (simp only: abs_int_less_real)
  then have "\<bar>real_of_int n\<bar> * 2 powi k < 2 ^ 53 * 2 powi k"
    by (intro mult_strict_right_mono) simp_all
  also have "(2::real) ^ 53 * 2 powi k = 2 powi (53 + k)"
    using power_int_add [of "2::real" 53 k] by simp
  finally have "(2::real) powi e < 2 powi (53 + k)"
    using assms(2) by (simp add: nk(3) abs_mult)
  then have "e < 53 + k"
    by (smt (verit) power_int_increasing)
  then have "e - 52 \<le> k" by simp
  moreover have "on_grid k y" unfolding on_grid_def using nk(3) by blast
  ultimately show ?thesis by (rule on_grid_coarser [rotated])
qed

lemma on_grid_representable:
  assumes "on_grid k x" "- 1074 \<le> k" "\<bar>x\<bar> < 2 powi (k + 53)"
  shows "representable x"
proof -
  from assms(1) obtain n :: int where x: "x = of_int n * 2 powi k" unfolding on_grid_def by blast
  have "(2::real) powi (k + 53) = 2 powi k * 2 ^ 53"
    using power_int_add [of "2::real" k 53] by simp
  with assms(3) have "\<bar>real_of_int n\<bar> * 2 powi k < 2 ^ 53 * 2 powi k"
    by (simp add: x abs_mult mult.commute)
  then have "\<bar>real_of_int n\<bar> < 2 ^ 53"
    by (simp add: mult_less_cancel_right)
  then have "\<bar>n\<bar> < 2 ^ 53" by (simp only: abs_int_less_real)
  then show ?thesis unfolding x using assms(2) by (rule representable_int_powi)
qed

text \<open>Rounding keeps a number on its grid.\<close>

lemma b64_on_grid:
  assumes r: "binary64_rounding rnd" and g: "on_grid k x" and k: "- 1074 \<le> k"
  shows "on_grid k (rnd x)"
proof (cases "\<bar>x\<bar> < 2 powi (k + 53)")
  case True
  then have "representable x" by (rule on_grid_representable [OF g k])
  then show ?thesis using g by (simp add: b64_fix [OF r])
next
  case False
  then have "2 powi (k + 53) \<le> \<bar>x\<bar>" by simp
  then have "2 powi (k + 53) \<le> \<bar>rnd x\<bar>"
    using k by (intro b64_abs_lower [OF r]) simp_all
  then have "on_grid (k + 53 - 52) (rnd x)"
    by (rule representable_on_grid [OF b64_representable [OF r]])
  then show ?thesis by (rule on_grid_coarser) simp
qed

section \<open>Rounding to nearest, ties to even, is a binary64 rounding\<close>

lemma rne_of_int [simp]: "rne (of_int n) = n"
  by (simp add: rne_def)

lemma rne_mono: "v \<le> w \<Longrightarrow> rne v \<le> rne w"
proof -
  assume vw: "v \<le> w"
  have b: "\<lfloor>u\<rfloor> \<le> rne u \<and> rne u \<le> \<lfloor>u\<rfloor> + 1" for u by (simp add: rne_def Let_def)
  show ?thesis
  proof (cases "\<lfloor>v\<rfloor> = \<lfloor>w\<rfloor>")
    case True
    with vw show ?thesis by (auto simp: rne_def Let_def)
  next
    case False
    with vw have "\<lfloor>v\<rfloor> < \<lfloor>w\<rfloor>" by (simp add: floor_mono order.strict_iff_order)
    with b [of v] b [of w] show ?thesis by linarith
  qed
qed

lemma rne_le: "v \<le> of_int n \<Longrightarrow> rne v \<le> n"
  using rne_mono [of v "of_int n"] by simp

lemma rne_ge: "of_int n \<le> v \<Longrightarrow> n \<le> rne v"
  using rne_mono [of "of_int n" v] by simp

lemma floor_log2_bounds:
  assumes "0 < a"
  shows "2 powi \<lfloor>log 2 a\<rfloor> \<le> a" and "a < 2 powi (\<lfloor>log 2 a\<rfloor> + 1)"
proof -
  have p: "2 powr real_of_int n = 2 powi n" for n
    by (rule powr_real_of_int') simp_all
  have "2 powr real_of_int \<lfloor>log 2 a\<rfloor> \<le> 2 powr log 2 a"
    by (intro powr_mono) simp_all
  also have "\<dots> = a" using assms by simp
  finally show "2 powi \<lfloor>log 2 a\<rfloor> \<le> a" by (simp only: p)
  have "a = 2 powr log 2 a" using assms by simp
  also have "\<dots> < 2 powr real_of_int (\<lfloor>log 2 a\<rfloor> + 1)"
  proof (rule powr_less_mono)
    show "log 2 a < real_of_int (\<lfloor>log 2 a\<rfloor> + 1)"
      using real_of_int_floor_add_one_gt [of "log 2 a"] by simp
  qed simp
  finally show "a < 2 powi (\<lfloor>log 2 a\<rfloor> + 1)" by (simp only: p)
qed

lemma ulp_pos [simp]: "0 < ulp x"
  by (simp add: ulp_def)

lemma ulp_nonneg [simp]: "0 \<le> ulp x"
  by (simp add: ulp_def)

lemma ulp_nonzero [simp]: "ulp x \<noteq> 0"
  by (simp add: ulp_def)

lemma ulp_minus [simp]: "ulp (- x) = ulp x"
  by (simp add: ulp_def expo_def)

lemma expo_ge: "- 1022 \<le> expo x"
  by (simp add: expo_def)

lemma expo_mono: "0 < a \<Longrightarrow> a \<le> b \<Longrightarrow> expo a \<le> expo b"
proof -
  assume "0 < a" "a \<le> b"
  then have "log 2 a \<le> log 2 b" by simp
  then have "\<lfloor>log 2 a\<rfloor> \<le> \<lfloor>log 2 b\<rfloor>" by (rule floor_mono)
  with \<open>0 < a\<close> \<open>a \<le> b\<close> show ?thesis by (simp add: expo_def)
qed

lemma expo_upper: "0 < a \<Longrightarrow> a < 2 powi (expo a + 1)"
proof -
  assume a: "0 < a"
  have "\<lfloor>log 2 a\<rfloor> + 1 \<le> expo a + 1" using a by (simp add: expo_def)
  then have "(2::real) powi (\<lfloor>log 2 a\<rfloor> + 1) \<le> 2 powi (expo a + 1)"
    by (intro power_int_increasing) simp_all
  with floor_log2_bounds(2) [OF a] show ?thesis by linarith
qed

lemma expo_lower: "0 < a \<Longrightarrow> - 1022 < expo a \<Longrightarrow> 2 powi expo a \<le> a"
proof -
  assume a: "0 < a" and e: "- 1022 < expo a"
  then have "expo a = \<lfloor>log 2 a\<rfloor>" by (simp add: expo_def max_def split: if_splits)
  with floor_log2_bounds(1) [OF a] show ?thesis by simp
qed

lemma two_powi_split: "(2::real) powi (e + 1) = 2 ^ 53 * 2 powi (e - 52)"
proof -
  have "(2::real) powi (53 + (e - 52)) = 2 powi 53 * 2 powi (e - 52)"
    by (rule power_int_add) simp
  moreover have "53 + (e - 52) = e + 1" by simp
  ultimately have "(2::real) powi (e + 1) = 2 powi 53 * 2 powi (e - 52)" by (simp only:)
  then show ?thesis by (simp only: power_int_numeral)
qed

lemma two_powi_split': "(2::real) powi e = 2 ^ 52 * 2 powi (e - 52)"
proof -
  have "(2::real) powi (52 + (e - 52)) = 2 powi 52 * 2 powi (e - 52)"
    by (rule power_int_add) simp
  moreover have "52 + (e - 52) = e" by simp
  ultimately have "(2::real) powi e = 2 powi 52 * 2 powi (e - 52)" by (simp only:)
  then show ?thesis by (simp only: power_int_numeral)
qed

lemma rd_pos_eq: "0 < a \<Longrightarrow> round_double a = of_int (rne (a / ulp a)) * ulp a"
  by (simp add: round_double_def)

lemma rd_minus: "round_double (- x) = - round_double x"
  by (simp add: round_double_def sgn_minus)

lemma rd_0 [simp]: "round_double 0 = 0"
  by (simp add: round_double_def)

lemma quotient_bounds:
  assumes a: "0 < a"
  shows "0 \<le> a / ulp a" and "a / ulp a < 2 ^ 53"
proof -
  show "0 \<le> a / ulp a" using a by simp
  have "a < 2 ^ 53 * ulp a" using expo_upper [OF a] by (simp add: two_powi_split ulp_def)
  then show "a / ulp a < 2 ^ 53" by (simp add: pos_divide_less_eq)
qed

lemma rne_quotient_bounds:
  assumes a: "0 < a"
  shows "0 \<le> rne (a / ulp a)" and "rne (a / ulp a) \<le> 2 ^ 53"
proof -
  show "0 \<le> rne (a / ulp a)" using quotient_bounds(1) [OF a] by (intro rne_ge) simp
  show "rne (a / ulp a) \<le> 2 ^ 53" using quotient_bounds(2) [OF a] by (intro rne_le) simp
qed

lemma rd_pos_nonneg: "0 < a \<Longrightarrow> 0 \<le> round_double a"
  using rne_quotient_bounds(1) [of a] by (simp add: rd_pos_eq)

lemma rd_pos_upper: "0 < a \<Longrightarrow> round_double a \<le> 2 powi (expo a + 1)"
proof -
  assume a: "0 < a"
  have "real_of_int (rne (a / ulp a)) \<le> real_of_int (2 ^ 53)"
    using rne_quotient_bounds(2) [OF a] by (simp only: of_int_le_iff)
  then have "real_of_int (rne (a / ulp a)) * ulp a \<le> 2 ^ 53 * ulp a"
    by (intro mult_right_mono) simp_all
  then show ?thesis by (simp add: rd_pos_eq [OF a] two_powi_split ulp_def)
qed

lemma rd_pos_lower: "0 < a \<Longrightarrow> - 1022 < expo a \<Longrightarrow> 2 powi expo a \<le> round_double a"
proof -
  assume a: "0 < a" and e: "- 1022 < expo a"
  have "2 ^ 52 * ulp a \<le> a" using expo_lower [OF a e] by (simp add: two_powi_split' [of "expo a"] ulp_def)
  then have "real_of_int (2 ^ 52) \<le> a / ulp a" by (simp add: pos_le_divide_eq)
  then have "2 ^ 52 \<le> rne (a / ulp a)" by (rule rne_ge)
  then have "real_of_int (2 ^ 52) \<le> real_of_int (rne (a / ulp a))" by (simp only: of_int_le_iff)
  then have "2 ^ 52 * ulp a \<le> real_of_int (rne (a / ulp a)) * ulp a"
    by (intro mult_right_mono) simp_all
  then show ?thesis by (simp add: rd_pos_eq [OF a] two_powi_split' [of "expo a"] ulp_def)
qed

lemma rd_mono_pos:
  assumes a: "0 < a" and ab: "a \<le> b"
  shows "round_double a \<le> round_double b"
proof (cases "expo a = expo b")
  case True
  then have u: "ulp a = ulp b" by (simp add: ulp_def)
  have "a / ulp b \<le> b / ulp b" using ab by (simp add: divide_right_mono)
  then have "rne (a / ulp b) \<le> rne (b / ulp b)" by (rule rne_mono)
  then have "real_of_int (rne (a / ulp b)) * ulp b \<le> real_of_int (rne (b / ulp b)) * ulp b"
    by (intro mult_right_mono) simp_all
  then show ?thesis using a ab by (simp add: rd_pos_eq u)
next
  case False
  with expo_mono [OF a ab] have lt: "expo a < expo b" by simp
  have b: "0 < b" using a ab by simp
  have "round_double a \<le> 2 powi (expo a + 1)" by (rule rd_pos_upper [OF a])
  also have "\<dots> \<le> 2 powi expo b" using lt by (intro power_int_increasing) simp_all
  also have "\<dots> \<le> round_double b" using lt expo_ge [of a] by (intro rd_pos_lower [OF b]) simp
  finally show ?thesis .
qed

lemma rd_mono: "x \<le> y \<Longrightarrow> round_double x \<le> round_double y"
proof -
  assume xy: "x \<le> y"
  consider "0 < x" | "x = 0" | "x < 0" "y < 0" | "x < 0" "0 \<le> y" by linarith
  then show ?thesis
  proof cases
    case 1
    then show ?thesis using xy by (rule rd_mono_pos)
  next
    case 2
    then show ?thesis using xy rd_pos_nonneg [of y] by (cases "y = 0") simp_all
  next
    case 3
    then have "round_double (- y) \<le> round_double (- x)" using xy by (intro rd_mono_pos) simp_all
    then show ?thesis by (simp add: rd_minus)
  next
    case 4
    have "0 \<le> round_double (- x)" using 4 by (intro rd_pos_nonneg) simp
    then have "round_double x \<le> 0" by (simp add: rd_minus)
    moreover have "0 \<le> round_double y" using 4 rd_pos_nonneg [of y] by (cases "y = 0") simp_all
    ultimately show ?thesis by simp
  qed
qed

lemma rd_fix_pos:
  assumes a: "0 < a" and rep: "representable a"
  shows "round_double a = a"
proof -
  from rep obtain n k where nk: "\<bar>n\<bar> < (2::int) ^ 53" "- 1074 \<le> k" "a = of_int n * 2 powi k"
    unfolding representable_def by blast
  have "\<bar>real_of_int n\<bar> < 2 ^ 53" using nk(1) by (simp only: abs_int_less_real)
  then have "\<bar>real_of_int n\<bar> * 2 powi k < 2 ^ 53 * 2 powi k"
    by (intro mult_strict_right_mono) simp_all
  also have "(2::real) ^ 53 * 2 powi k = 2 powi (53 + k)"
    using power_int_add [of "2::real" 53 k] by simp
  finally have "\<bar>real_of_int n\<bar> * 2 powi k < 2 powi (53 + k)" .
  moreover have "a \<le> \<bar>real_of_int n\<bar> * 2 powi k"
    unfolding nk(3) by (intro mult_right_mono) simp_all
  ultimately have "a < 2 powi (53 + k)" by linarith
  with floor_log2_bounds(1) [OF a] have "(2::real) powi \<lfloor>log 2 a\<rfloor> < 2 powi (53 + k)" by linarith
  then have "\<lfloor>log 2 a\<rfloor> < 53 + k" by (smt (verit) power_int_increasing)
  then have e: "expo a - 52 \<le> k" using nk(2) a by (simp add: expo_def)
  have "(2::real) powi k = 2 powi (k - (expo a - 52)) * 2 powi (expo a - 52)"
    using power_int_add [of "2::real" "k - (expo a - 52)" "expo a - 52"] by simp
  also have "(2::real) powi (k - (expo a - 52)) = 2 ^ nat (k - (expo a - 52))"
    using e by (simp add: power_int_def)
  finally have "a = real_of_int (n * 2 ^ nat (k - (expo a - 52))) * ulp a"
    by (simp add: nk(3) ulp_def)
  then have q: "a / ulp a = real_of_int (n * 2 ^ nat (k - (expo a - 52)))"
    by (simp add: nonzero_divide_eq_eq)
  have "real_of_int (rne (a / ulp a)) * ulp a = a / ulp a * ulp a"
    by (simp only: q rne_of_int)
  then show ?thesis by (simp add: rd_pos_eq [OF a])
qed

lemma rd_representable_pos:
  assumes a: "0 < a"
  shows "representable (round_double a)"
proof (cases "rne (a / ulp a) = 2 ^ 53")
  case True
  then have "round_double a = 2 powi (expo a + 1)"
    by (simp add: rd_pos_eq [OF a] two_powi_split ulp_def)
  then show ?thesis using expo_ge [of a] by (simp add: representable_powi)
next
  case False
  with rne_quotient_bounds [OF a] have "\<bar>rne (a / ulp a)\<bar> < 2 ^ 53" by simp
  then have "representable (of_int (rne (a / ulp a)) * 2 powi (expo a - 52))"
    using expo_ge [of a] by (intro representable_int_powi) simp_all
  then show ?thesis by (simp add: rd_pos_eq [OF a] ulp_def)
qed

lemma round_double_binary64: "binary64_rounding round_double"
  unfolding binary64_rounding_def
proof (intro conjI allI impI)
  show "mono round_double" by (rule monoI) (rule rd_mono)
next
  fix x :: real assume rep: "representable x"
  consider "0 < x" | "x = 0" | "x < 0" by linarith
  then show "round_double x = x"
  proof cases
    case 1
    then show ?thesis using rep by (rule rd_fix_pos)
  next
    case 2
    then show ?thesis by simp
  next
    case 3
    then have "round_double (- x) = - x"
      using representable_minus [OF rep] by (intro rd_fix_pos) simp_all
    then show ?thesis by (simp add: rd_minus)
  qed
next
  fix x :: real
  consider "0 < x" | "x = 0" | "x < 0" by linarith
  then show "representable (round_double x)"
  proof cases
    case 1
    then show ?thesis by (rule rd_representable_pos)
  next
    case 2
    then show ?thesis by (simp add: representable_0)
  next
    case 3
    then have "representable (round_double (- x))" by (intro rd_representable_pos) simp
    then have "representable (- round_double (- x))" by (rule representable_minus)
    then show ?thesis by (simp add: rd_minus)
  qed
qed

section \<open>Switching anti-aliasing detection off and on\<close>

lemma locals_detect:
  "locals_of rnd img1 img2 (options\<lparr>detectAntiAliasing := Some b\<rparr>) wa wb =
   (locals_of rnd img1 img2 options wa wb)\<lparr>detectAA := b\<rparr>"
  by (simp add: locals_of_def Let_def or_default_def)

lemma pixel_delta_detect [simp]: "pixel_delta (L\<lparr>detectAA := b\<rparr>) = pixel_delta L"
  by (simp add: pixel_delta_def fun_eq_iff Let_def)

lemma exceeds_detect [simp]: "exceeds (L\<lparr>detectAA := b\<rparr>) = exceeds L"
  by (simp add: exceeds_def fun_eq_iff)

lemma isAA_off [simp]: "isAA (L\<lparr>detectAA := False\<rparr>) p = False"
  by (cases p) (simp add: isAA_def)

text \<open>
  For views at byte offsets that are multiples of 4 the two runs return, and their
  counts are related as the specification says.
\<close>

lemma aa_toggle_aligned:
  assumes "validateInput img1 img2 (outputData options) = Inr ()"
    and al: "aligned img1" "aligned img2"
  shows "\<exists>r0 o0 r1 o1.
     pixelmatch rnd img1 img2 (options\<lparr>detectAntiAliasing := Some False\<rparr>) = Inr (r0, o0) \<and>
     pixelmatch rnd img1 img2 (options\<lparr>detectAntiAliasing := Some True\<rparr>) = Inr (r1, o1) \<and>
     diffCount r0 = diffCount r1 + aaCount r1 \<and> aaCount r0 = 0"
proof -
  let ?L = "loop_locals rnd img1 img2 options"
  let ?ps = "pixels (wd ?L) (ht ?L)"
  have cnt: "length (filter (counted_diff (?L\<lparr>detectAA := False\<rparr>)) ?ps) =
      length (filter (counted_diff (?L\<lparr>detectAA := True\<rparr>)) ?ps) +
      length (filter (counted_aa (?L\<lparr>detectAA := True\<rparr>)) ?ps)"
    using filter_split_length [of "exceeds ?L" ?ps "isAA (?L\<lparr>detectAA := True\<rparr>)"]
    by (simp add: counted_diff_def counted_aa_def)
  have aa0: "length (filter (counted_aa (?L\<lparr>detectAA := False\<rparr>)) ?ps) = 0"
    by (simp add: counted_aa_def)
  have v: "validateInput img1 img2 (outputData (options\<lparr>detectAntiAliasing := Some b\<rparr>)) = Inr ()" for b
    using assms by simp
  have ld: "loop_locals rnd img1 img2 (options\<lparr>detectAntiAliasing := Some b\<rparr>) = ?L\<lparr>detectAA := b\<rparr>" for b
    by (simp add: loop_locals_def locals_detect)
  show ?thesis
    using cnt aa0
    by (simp add: pixelmatch_aligned [OF v al] ld Let_def scan_diff scan_aa buildResult_def)
qed



section \<open>An image compared with itself\<close>

lemma words_identical_refl: "words_identical a a len"
  by (simp add: words_identical_def list_all_iff)

lemma identity_aligned:
  assumes "validateInput img img (outputData options) = Inr ()" and "aligned img"
    and "rnd 0 = 0"
  shows "\<exists>out'. pixelmatch rnd img img options =
     Inr (\<lparr> diffCount = 0, diffPercentage = 0, totalPixels = width img * height img,
            aaCount = 0, identical = True \<rparr>, out')"
  using assms(3)
  by (simp add: pixelmatch_aligned [OF assms(1) assms(2) assms(2)] Let_def loop_locals_def
        locals_of_def words_identical_refl buildResult_def)

text \<open>
  C6, at a concrete input: a 1x1 image whose data is a view at byte offset 1 of its
  buffer, compared with itself. The validator accepts it, and the comparison throws the
  \<open>RangeError\<close> instead of returning a result.
\<close>

theorem identity_misaligned:
  "validateInput \<lparr>data = Uint8Array 1 [10, 20, 30, 255], width = 1, height = 1\<rparr>
      \<lparr>data = Uint8Array 1 [10, 20, 30, 255], width = 1, height = 1\<rparr> None = Inr () \<and>
   pixelmatch rnd \<lparr>data = Uint8Array 1 [10, 20, 30, 255], width = 1, height = 1\<rparr>
      \<lparr>data = Uint8Array 1 [10, 20, 30, 255], width = 1, height = 1\<rparr>
      \<lparr> threshold = None, detectAntiAliasing = None, outputData = None, diffMask = None,
        alpha = None, aaColor = None, diffColor = None, diffColorAlt = None \<rparr> = Inl RangeError"
  by (simp add: validateInput_def pixelmatch_def Uint32Array_def)

theorem identity_misaligned_witness:
  "pixelmatch round_double \<lparr>data = Uint8Array 1 [10, 20, 30, 255], width = 1, height = 1\<rparr>
      \<lparr>data = Uint8Array 1 [10, 20, 30, 255], width = 1, height = 1\<rparr>
      \<lparr> threshold = None, detectAntiAliasing = None, outputData = None, diffMask = None,
        alpha = None, aaColor = None, diffColor = None, diffColorAlt = None \<rparr> = Inl RangeError"
  using identity_misaligned [of round_double] by (simp only:)

section \<open>Raising the threshold\<close>

lemma locals_threshold:
  "locals_of rnd img1 img2 (options\<lparr>threshold := Some t\<rparr>) wa wb =
   (locals_of rnd img1 img2 options wa wb)\<lparr>maxDelta := rnd (rnd (35215 * t) * t)\<rparr>"
  by (simp add: locals_of_def Let_def or_default_def)

lemma pixel_delta_maxDelta [simp]: "pixel_delta (L\<lparr>maxDelta := m\<rparr>) = pixel_delta L"
  by (simp add: pixel_delta_def fun_eq_iff Let_def)

lemma identical_no_exceed:
  assumes "words_identical (a32 L) (b32 L) (wd L * ht L)" "0 \<le> maxDelta L"
  shows "filter (exceeds L) (pixels (wd L) (ht L)) = []"
proof -
  have "\<not> exceeds L p" if "p \<in> set (pixels (wd L) (ht L))" for p
  proof -
    obtain x y where p: "p = (x, y)" by (cases p)
    from that p have r: "0 \<le> y * wd L + x \<and> y * wd L + x < wd L * ht L"
      using pixel_index_range [of x "wd L" y "ht L"] by (simp add: pixels_set)
    then have "nat (y * wd L + x) < nat (wd L * ht L)" by linarith
    with assms(1) have "a32 L ! nat (y * wd L + x) = b32 L ! nat (y * wd L + x)"
      by (simp add: words_identical_def list_all_iff)
    then show ?thesis using assms(2) p by (simp add: exceeds_def pixel_delta_def Let_def)
  qed
  then show ?thesis by (simp add: filter_empty_conv)
qed

text \<open>The cutoff \<open>maxDelta\<close> as the program computes it is not negative, and it does not
  decrease when the threshold grows from 0, for a monotone rounding that keeps 0.\<close>

lemma rnd_nonneg: "mono rnd \<Longrightarrow> rnd 0 = 0 \<Longrightarrow> 0 \<le> x \<Longrightarrow> 0 \<le> rnd (x::real)"
  by (metis monoD)

lemma rnd_nonpos: "mono rnd \<Longrightarrow> rnd 0 = 0 \<Longrightarrow> x \<le> 0 \<Longrightarrow> rnd (x::real) \<le> 0"
  by (metis monoD)

lemma cutoff_nonneg:
  assumes "mono rnd" "rnd 0 = (0::real)"
  shows "0 \<le> rnd (rnd (35215 * t) * t)"
proof (cases "0 \<le> t")
  case True
  then have "0 \<le> rnd (35215 * t)" by (intro rnd_nonneg [OF assms]) simp
  with True have "0 \<le> rnd (35215 * t) * t" by (rule mult_nonneg_nonneg [rotated])
  then show ?thesis by (rule rnd_nonneg [OF assms])
next
  case False
  then have "rnd (35215 * t) \<le> 0" by (intro rnd_nonpos [OF assms]) simp
  with False have "0 \<le> rnd (35215 * t) * t" by (intro mult_nonpos_nonpos) simp_all
  then show ?thesis by (rule rnd_nonneg [OF assms])
qed

lemma cutoff_mono:
  assumes "mono rnd" "rnd 0 = (0::real)" "0 \<le> t1" "t1 \<le> t2"
  shows "rnd (rnd (35215 * t1) * t1) \<le> rnd (rnd (35215 * t2) * t2)"
proof -
  have a: "0 \<le> rnd (35215 * t1)" using assms(3) by (intro rnd_nonneg [OF assms(1,2)]) simp
  have b: "rnd (35215 * t1) \<le> rnd (35215 * t2)" using assms(4) by (intro monoD [OF assms(1)]) simp
  have "rnd (35215 * t1) * t1 \<le> rnd (35215 * t2) * t2"
    using a b assms(3,4) by (intro mult_mono) auto
  then show ?thesis by (rule monoD [OF assms(1)])
qed

lemma maxDelta_nonneg:
  "mono rnd \<Longrightarrow> rnd 0 = 0 \<Longrightarrow> 0 \<le> maxDelta (locals_of rnd img1 img2 options wa wb)"
  by (simp add: locals_of_def Let_def cutoff_nonneg)

lemma sum_is_exceed_count:
  assumes v: "validateInput img1 img2 (outputData options) = Inr ()"
    and al: "aligned img1" "aligned img2"
    and r: "mono rnd" "rnd 0 = 0"
    and t: "threshold options = Some t"
  shows "\<exists>r out'. pixelmatch rnd img1 img2 options = Inr (r, out') \<and>
     diffCount r + aaCount r =
       length (filter (\<lambda>p. \<bar>pixel_delta (loop_locals rnd img1 img2 options) p\<bar>
                              > rnd (rnd (35215 * t) * t))
                 (pixels (width img1) (height img1)))"
proof -
  let ?L = "loop_locals rnd img1 img2 options"
  have m: "maxDelta ?L = rnd (rnd (35215 * t) * t)" and w: "wd ?L = width img1"
    and h: "ht ?L = height img1"
    using t by (simp_all add: loop_locals_def locals_of_def Let_def or_default_def)
  have ex: "exceeds ?L = (\<lambda>p. \<bar>pixel_delta ?L p\<bar> > rnd (rnd (35215 * t) * t))"
    by (simp add: exceeds_def m fun_eq_iff)
  show ?thesis
  proof (cases "words_identical (a32 ?L) (b32 ?L) (width img1 * height img1)")
    case True
    have "0 \<le> maxDelta ?L" unfolding m by (rule cutoff_nonneg [OF r])
    with True have "filter (exceeds ?L) (pixels (width img1) (height img1)) = []"
      using identical_no_exceed [of ?L] by (simp add: w h)
    with True show ?thesis
      by (simp add: pixelmatch_aligned [OF v al] Let_def buildResult_def ex)
  next
    case False
    then show ?thesis
      using counted_sum [of ?L "pixels (width img1) (height img1)"]
      by (simp add: pixelmatch_aligned [OF v al] Let_def buildResult_def scan_diff scan_aa w h ex)
  qed
qed

text \<open>
  For views at byte offsets that are multiples of 4 and thresholds \<open>0 \<le> t1 \<le> t2\<close>: at each
  threshold the sum \<open>diffCount + aaCount\<close> is the number of pixels whose absolute delta
  exceeds the cutoff the program computes, and the sum at \<open>t2\<close> is at most the sum at \<open>t1\<close>.
\<close>

lemma threshold_monotone_aligned:
  assumes v: "validateInput img1 img2 (outputData options) = Inr ()"
    and al: "aligned img1" "aligned img2"
    and r: "mono rnd" "rnd 0 = 0"
    and t: "0 \<le> t1" "t1 \<le> t2"
  shows "\<exists>r1 o1 r2 o2.
     pixelmatch rnd img1 img2 (options\<lparr>threshold := Some t1\<rparr>) = Inr (r1, o1) \<and>
     pixelmatch rnd img1 img2 (options\<lparr>threshold := Some t2\<rparr>) = Inr (r2, o2) \<and>
     diffCount r1 + aaCount r1 =
       length (filter (\<lambda>p. \<bar>pixel_delta (loop_locals rnd img1 img2 options) p\<bar>
                              > rnd (rnd (35215 * t1) * t1))
                 (pixels (width img1) (height img1))) \<and>
     diffCount r2 + aaCount r2 =
       length (filter (\<lambda>p. \<bar>pixel_delta (loop_locals rnd img1 img2 options) p\<bar>
                              > rnd (rnd (35215 * t2) * t2))
                 (pixels (width img1) (height img1))) \<and>
     diffCount r2 + aaCount r2 \<le> diffCount r1 + aaCount r1"
proof -
  let ?L = "loop_locals rnd img1 img2 options"
  let ?ps = "pixels (width img1) (height img1)"
  let ?c = "\<lambda>t. rnd (rnd (35215 * t) * t)"
  have v': "validateInput img1 img2 (outputData (options\<lparr>threshold := Some s\<rparr>)) = Inr ()" for s
    using v by simp
  have pd: "pixel_delta (loop_locals rnd img1 img2 (options\<lparr>threshold := Some s\<rparr>)) = pixel_delta ?L" for s
    by (simp add: loop_locals_def locals_threshold)
  from sum_is_exceed_count [OF v' [of t1] al r, of t1] obtain r1 o1 where
    1: "pixelmatch rnd img1 img2 (options\<lparr>threshold := Some t1\<rparr>) = Inr (r1, o1)"
       "diffCount r1 + aaCount r1 = length (filter (\<lambda>p. \<bar>pixel_delta ?L p\<bar> > ?c t1) ?ps)"
    by (auto simp: pd)
  from sum_is_exceed_count [OF v' [of t2] al r, of t2] obtain r2 o2 where
    2: "pixelmatch rnd img1 img2 (options\<lparr>threshold := Some t2\<rparr>) = Inr (r2, o2)"
       "diffCount r2 + aaCount r2 = length (filter (\<lambda>p. \<bar>pixel_delta ?L p\<bar> > ?c t2) ?ps)"
    by (auto simp: pd)
  have le: "?c t1 \<le> ?c t2" by (rule cutoff_mono [OF r t])
  have "length (filter (\<lambda>p. \<bar>pixel_delta ?L p\<bar> > ?c t2) ?ps)
        \<le> length (filter (\<lambda>p. \<bar>pixel_delta ?L p\<bar> > ?c t1) ?ps)"
    using le by (intro filter_mono_length) linarith
  with 1 2 show ?thesis by simp
qed



section \<open>The sign of the colour difference\<close>

text \<open>
  Every channel difference is 0 or at least \<open>2^-8\<close> in magnitude: it is an integer, or the
  rounding of an integer divided by 255.
\<close>

lemma int_valued_bound: "x \<in> \<int> \<Longrightarrow> x = 0 \<or> 2 powi (- 8) \<le> \<bar>x::real\<bar>"
proof -
  assume x: "x \<in> \<int>"
  have "(2::real) powi (- 8) \<le> 1" by (simp add: power_int_minus)
  moreover have "1 \<le> \<bar>x\<bar>" if "x \<noteq> 0" using x that by (rule Ints_nonzero_abs_ge1)
  ultimately show ?thesis by fastforce
qed

lemma int_div_255_bound:
  assumes r: "binary64_rounding rnd" and x: "x \<in> \<int>"
  shows "rnd (x / 255) = 0 \<or> 2 powi (- 8) \<le> \<bar>rnd (x / 255)\<bar>"
proof (cases "x = 0")
  case True
  then show ?thesis using b64_mono_zero [OF r] by simp
next
  case False
  then have "1 \<le> \<bar>x\<bar>" using x by (intro Ints_nonzero_abs_ge1)
  then have "1 / 256 \<le> \<bar>x / 255\<bar>" by simp
  moreover have "(2::real) powi (- 8) = 1 / 256" by (simp add: power_int_minus)
  ultimately have "2 powi (- 8) \<le> \<bar>x / 255\<bar>" by simp
  then have "2 powi (- 8) \<le> \<bar>rnd (x / 255)\<bar>" by (intro b64_abs_lower [OF r]) simp_all
  then show ?thesis by simp
qed

lemma elem_Ints: "elem img i \<in> \<int>"
  unfolding elem_def by (rule Ints_of_nat)

lemma channel_diffs_bound:
  assumes r: "binary64_rounding rnd" and d: "channel_diffs rnd img1 img2 k m = (dr, dg, db)"
  shows "(dr = 0 \<or> 2 powi (- 8) \<le> \<bar>dr\<bar>) \<and> (dg = 0 \<or> 2 powi (- 8) \<le> \<bar>dg\<bar>) \<and>
         (db = 0 \<or> 2 powi (- 8) \<le> \<bar>db\<bar>)"
proof (cases "elem img1 (k + 3) < 255 \<or> elem img2 (m + 3) < 255")
  case True
  have i: "elem img1 a * elem img1 b - elem img2 c * elem img2 d
             - (48 + 159 * real_of_int e) * (elem img1 b - elem img2 d) \<in> \<int>" for a b c d e
    by (intro Ints_diff Ints_mult Ints_add elem_Ints Ints_of_int) simp_all
  have b: "rnd ((elem img1 a * elem img1 b - elem img2 c * elem img2 d
             - (48 + 159 * real_of_int e) * (elem img1 b - elem img2 d)) / 255) = 0 \<or>
           2 powi (- 8) \<le> \<bar>rnd ((elem img1 a * elem img1 b - elem img2 c * elem img2 d
             - (48 + 159 * real_of_int e) * (elem img1 b - elem img2 d)) / 255)\<bar>" for a b c d e
    by (rule int_div_255_bound [OF r i])
  from True d have
    "dr = rnd ((elem img1 k * elem img1 (k + 3) - elem img2 m * elem img2 (m + 3)
          - (48 + 159 * real_of_int (js_rem k 2)) * (elem img1 (k + 3) - elem img2 (m + 3))) / 255)"
    "dg = rnd ((elem img1 (k + 1) * elem img1 (k + 3) - elem img2 (m + 1) * elem img2 (m + 3)
          - (48 + 159 * real_of_int
               (js_rem (toInt32 (rnd (real_of_int k / rnd 1.618033988749895))) 2))
            * (elem img1 (k + 3) - elem img2 (m + 3))) / 255)"
    "db = rnd ((elem img1 (k + 2) * elem img1 (k + 3) - elem img2 (m + 2) * elem img2 (m + 3)
          - (48 + 159 * real_of_int
               (js_rem (toInt32 (rnd (real_of_int k / rnd 2.618033988749895))) 2))
            * (elem img1 (k + 3) - elem img2 (m + 3))) / 255)"
    unfolding channel_diffs_def Let_def by (simp_all only: if_True prod.inject)
  then show ?thesis by (simp only: b simp_thms)
next
  case False
  have b: "elem img1 a - elem img2 c = 0 \<or> 2 powi (- 8) \<le> \<bar>elem img1 a - elem img2 c\<bar>" for a c
    by (intro int_valued_bound Ints_diff elem_Ints)
  from False d have "dr = elem img1 k - elem img2 m" "dg = elem img1 (k + 1) - elem img2 (m + 1)"
    "db = elem img1 (k + 2) - elem img2 (m + 2)"
    unfolding channel_diffs_def Let_def by (simp_all only: if_False prod.inject)
  then show ?thesis by (simp only: b simp_thms)
qed

text \<open>The luma \<open>y\<close> is a multiple of \<open>2^-64\<close>, so it is 0 or at least \<open>2^-64\<close> in magnitude.\<close>

lemma product_on_grid:
  assumes r: "binary64_rounding rnd" and d: "d = 0 \<or> 2 powi (- 8) \<le> \<bar>d\<bar>"
    and c: "1 / 16 \<le> c"
  shows "on_grid (- 64) (rnd (d * rnd c))"
proof (cases "d = 0")
  case True
  then show ?thesis using b64_mono_zero [OF r] by (simp add: on_grid_0)
next
  case False
  with d have d8: "2 powi (- 8) \<le> \<bar>d\<bar>" by simp
  have "(2::real) powi (- 4) = 1 / 16" by (simp add: power_int_minus)
  with c have "2 powi (- 4) \<le> c" by simp
  then have c4: "2 powi (- 4) \<le> rnd c"
    by (intro b64_lower [OF r] representable_powi) simp_all
  have "(2::real) powi (- 12) = 2 powi (- 8) * 2 powi (- 4)"
    using power_int_add [of "2::real" "- 8" "- 4"] by simp
  also have "\<dots> \<le> \<bar>d\<bar> * rnd c" using d8 c4 by (intro mult_mono) simp_all
  also have "\<dots> = \<bar>d * rnd c\<bar>" using c4 by (simp add: abs_mult)
  finally have "2 powi (- 12) \<le> \<bar>rnd (d * rnd c)\<bar>" by (intro b64_abs_lower [OF r]) simp_all
  then have "on_grid (- 12 - 52) (rnd (d * rnd c))"
    by (rule representable_on_grid [OF b64_representable [OF r]])
  then show ?thesis by simp
qed

lemma luma_on_grid:
  assumes r: "binary64_rounding rnd"
    and "dr = 0 \<or> 2 powi (- 8) \<le> \<bar>dr\<bar>" "dg = 0 \<or> 2 powi (- 8) \<le> \<bar>dg\<bar>"
      "db = 0 \<or> 2 powi (- 8) \<le> \<bar>db\<bar>"
  shows "on_grid (- 64) (yiq_y rnd (dr, dg, db))"
proof -
  have k: "- 1074 \<le> (- 64 :: int)" by simp
  have p1: "on_grid (- 64) (rnd (dr * rnd 0.29889531))"
    by (rule product_on_grid [OF r assms(2)]) simp
  have p2: "on_grid (- 64) (rnd (dg * rnd 0.58662247))"
    by (rule product_on_grid [OF r assms(3)]) simp
  have p3: "on_grid (- 64) (rnd (db * rnd 0.11448223))"
    by (rule product_on_grid [OF r assms(4)]) simp
  have "on_grid (- 64) (rnd (rnd (dr * rnd 0.29889531) + rnd (dg * rnd 0.58662247)))"
    by (rule b64_on_grid [OF r on_grid_add [OF p1 p2] k])
  then have "on_grid (- 64) (rnd (rnd (rnd (dr * rnd 0.29889531) + rnd (dg * rnd 0.58662247))
      + rnd (db * rnd 0.11448223)))"
    by (rule b64_on_grid [OF r on_grid_add [OF _ p3] k])
  then show ?thesis by (simp only: yiq_y_def prod.case)
qed

text \<open>The squared distance is not negative, and it is at least \<open>2^(2j-1)\<close> when \<open>y\<close> is at
  least \<open>2^j\<close> in magnitude: so it is positive when \<open>y\<close> is not 0, its first term being at least
  \<open>2^-129\<close>, far above the least positive binary64 number.\<close>

lemma square_term_nonneg:
  assumes r: "binary64_rounding rnd" and c: "0 \<le> c"
  shows "0 \<le> rnd (rnd (rnd c * v) * v)"
proof -
  have rc: "0 \<le> rnd c" using c by (rule b64_nonneg [OF r])
  show ?thesis
  proof (cases "0 \<le> v")
    case True
    then have "0 \<le> rnd (rnd c * v)" using rc by (intro b64_nonneg [OF r]) simp
    then have "0 \<le> rnd (rnd c * v) * v" using True by simp
    then show ?thesis by (rule b64_nonneg [OF r])
  next
    case False
    then have "rnd c * v \<le> 0" using rc by (simp add: mult_nonneg_nonpos)
    then have "rnd (rnd c * v) \<le> 0" by (rule b64_nonpos [OF r])
    then have "0 \<le> rnd (rnd c * v) * v" using False by (intro mult_nonpos_nonpos) simp_all
    then show ?thesis by (rule b64_nonneg [OF r])
  qed
qed

lemma square_term_lower:
  assumes r: "binary64_rounding rnd" and c: "1 / 2 \<le> c" and v: "2 powi j \<le> \<bar>v\<bar>"
    and j: "- 500 \<le> j"
  shows "2 powi (2 * j - 1) \<le> rnd (rnd (rnd c * v) * v)"
proof -
  have "(2::real) powi (- 1) = 1 / 2" by (simp add: power_int_minus)
  with c have "2 powi (- 1) \<le> c" by simp
  then have c1: "2 powi (- 1) \<le> rnd c"
    by (intro b64_lower [OF r] representable_powi) simp_all
  then have rc: "0 \<le> rnd c" by (smt (verit) zero_less_power_int)
  have "(2::real) powi (- 1 + j) = 2 powi (- 1) * 2 powi j"
    by (rule power_int_add) simp
  also have "\<dots> \<le> rnd c * \<bar>v\<bar>" using c1 v by (intro mult_mono) simp_all
  also have "\<dots> = \<bar>rnd c * v\<bar>" using rc by (simp add: abs_mult)
  finally have b: "2 powi (- 1 + j) \<le> \<bar>rnd (rnd c * v)\<bar>"
    using j by (intro b64_abs_lower [OF r]) simp_all
  have s: "rnd (rnd c * v) * v = \<bar>rnd (rnd c * v)\<bar> * \<bar>v\<bar>"
  proof (cases "0 \<le> v")
    case True
    then have "0 \<le> rnd (rnd c * v)" using rc by (intro b64_nonneg [OF r]) simp
    with True show ?thesis by simp
  next
    case False
    then have "rnd c * v \<le> 0" using rc by (simp add: mult_nonneg_nonpos)
    then have "rnd (rnd c * v) \<le> 0" by (rule b64_nonpos [OF r])
    with False show ?thesis by simp
  qed
  have "(2::real) powi (- 1 + j + j) = 2 powi (- 1 + j) * 2 powi j"
    by (rule power_int_add) simp
  moreover have "- 1 + j + j = 2 * j - 1" by simp
  ultimately have "(2::real) powi (2 * j - 1) = 2 powi (- 1 + j) * 2 powi j" by (simp only:)
  also have "\<dots> \<le> \<bar>rnd (rnd c * v)\<bar> * \<bar>v\<bar>" using b v by (intro mult_mono) simp_all
  finally have "2 powi (2 * j - 1) \<le> rnd (rnd c * v) * v" by (simp only: s)
  then show ?thesis using j by (intro b64_lower [OF r] representable_powi) simp_all
qed

lemma squared_yiq_nonneg:
  assumes r: "binary64_rounding rnd"
  shows "0 \<le> squared_yiq rnd d"
proof -
  have t: "0 \<le> rnd (rnd (rnd c * v) * v)" if "0 \<le> c" for c v
    using that by (rule square_term_nonneg [OF r])
  have "0 \<le> rnd (rnd (rnd (rnd 0.5053 * yiq_y rnd d) * yiq_y rnd d)
               + rnd (rnd (rnd 0.299 * yiq_i rnd d) * yiq_i rnd d))"
    by (intro b64_nonneg [OF r] add_nonneg_nonneg t) simp_all
  then show ?thesis
    unfolding squared_yiq_def by (intro b64_nonneg [OF r] add_nonneg_nonneg t) simp_all
qed

lemma squared_yiq_lower:
  assumes r: "binary64_rounding rnd" and y: "2 powi j \<le> \<bar>yiq_y rnd d\<bar>" and j: "- 500 \<le> j"
  shows "2 powi (2 * j - 1) \<le> squared_yiq rnd d"
proof -
  have k: "- 1074 \<le> 2 * j - 1" using j by simp
  have t: "0 \<le> rnd (rnd (rnd c * v) * v)" if "0 \<le> c" for c v
    using that by (rule square_term_nonneg [OF r])
  have t1: "2 powi (2 * j - 1) \<le> rnd (rnd (rnd 0.5053 * yiq_y rnd d) * yiq_y rnd d)"
    by (rule square_term_lower [OF r _ y j]) simp
  have t2: "0 \<le> rnd (rnd (rnd 0.299 * yiq_i rnd d) * yiq_i rnd d)" by (rule t) simp
  have t3: "0 \<le> rnd (rnd (rnd 0.1957 * yiq_q rnd d) * yiq_q rnd d)" by (rule t) simp
  have "2 powi (2 * j - 1) \<le> rnd (rnd (rnd 0.5053 * yiq_y rnd d) * yiq_y rnd d)
               + rnd (rnd (rnd 0.299 * yiq_i rnd d) * yiq_i rnd d)"
    using t1 t2 by linarith
  then have "2 powi (2 * j - 1) \<le> rnd (rnd (rnd (rnd 0.5053 * yiq_y rnd d) * yiq_y rnd d)
               + rnd (rnd (rnd 0.299 * yiq_i rnd d) * yiq_i rnd d))"
    by (rule b64_lower [OF r representable_powi [OF k]])
  with t3 have "2 powi (2 * j - 1) \<le> rnd (rnd (rnd (rnd 0.5053 * yiq_y rnd d) * yiq_y rnd d)
               + rnd (rnd (rnd 0.299 * yiq_i rnd d) * yiq_i rnd d))
          + rnd (rnd (rnd 0.1957 * yiq_q rnd d) * yiq_q rnd d)"
    by linarith
  then show ?thesis
    unfolding squared_yiq_def by (rule b64_lower [OF r representable_powi [OF k]])
qed

lemma squared_yiq_pos:
  assumes r: "binary64_rounding rnd" and y: "2 powi (- 64) \<le> \<bar>yiq_y rnd d\<bar>"
  shows "0 < squared_yiq rnd d"
proof -
  have "2 powi (2 * (- 64) - 1) \<le> squared_yiq rnd d"
    by (rule squared_yiq_lower [OF r y]) simp
  moreover have "(0::real) < 2 powi (2 * (- 64) - 1)" by (rule zero_less_power_int) simp
  ultimately show ?thesis by linarith
qed

text \<open>\<open>colorDelta\<close> in terms of its parts.\<close>

lemma colorDelta_full:
  assumes "\<not> all_channels_equal img1 img2 k m"
  shows "colorDelta rnd img1 img2 k m False =
     (if yiq_y rnd (channel_diffs rnd img1 img2 k m) > 0
      then - squared_yiq rnd (channel_diffs rnd img1 img2 k m)
      else squared_yiq rnd (channel_diffs rnd img1 img2 k m))"
proof (cases "elem img1 (k + 3) < 255 \<or> elem img2 (m + 3) < 255")
  case True
  with assms show ?thesis
    unfolding colorDelta_def all_channels_equal_def channel_diffs_def yiq_y_def yiq_i_def yiq_q_def
        squared_yiq_def Let_def
    by (simp only: if_True if_False prod.case simp_thms)
next
  case False
  with assms show ?thesis
    unfolding colorDelta_def all_channels_equal_def channel_diffs_def yiq_y_def yiq_i_def yiq_q_def
        squared_yiq_def Let_def
    by (simp only: if_True if_False prod.case simp_thms)
qed

lemma colorDelta_yOnly:
  assumes "\<not> all_channels_equal img1 img2 k m"
  shows "colorDelta rnd img1 img2 k m True = yiq_y rnd (channel_diffs rnd img1 img2 k m)"
proof (cases "elem img1 (k + 3) < 255 \<or> elem img2 (m + 3) < 255")
  case True
  with assms show ?thesis
    unfolding colorDelta_def all_channels_equal_def channel_diffs_def yiq_y_def Let_def
    by (simp only: if_True if_False prod.case simp_thms)
next
  case False
  with assms show ?thesis
    unfolding colorDelta_def all_channels_equal_def channel_diffs_def yiq_y_def Let_def
    by (simp only: if_True if_False prod.case simp_thms)
qed

text \<open>The sign law for every binary64 rounding.\<close>

lemma luma_zero_or_bound:
  assumes r: "binary64_rounding rnd"
  shows "yiq_y rnd (channel_diffs rnd img1 img2 k m) = 0 \<or>
         2 powi (- 64) \<le> \<bar>yiq_y rnd (channel_diffs rnd img1 img2 k m)\<bar>"
proof -
  obtain dr dg db where d: "channel_diffs rnd img1 img2 k m = (dr, dg, db)"
    by (cases "channel_diffs rnd img1 img2 k m") auto
  from channel_diffs_bound [OF r d] have "on_grid (- 64) (yiq_y rnd (dr, dg, db))"
    by (intro luma_on_grid [OF r]) simp_all
  then show ?thesis unfolding d using on_grid_nonzero by blast
qed

lemma sign_law:
  assumes r: "binary64_rounding rnd" and ne: "\<not> all_channels_equal img1 img2 k m"
  shows "colorDelta rnd img1 img2 k m False < 0 \<longleftrightarrow> colorDelta rnd img1 img2 k m True > 0"
    and "colorDelta rnd img1 img2 k m True < 0 \<Longrightarrow> colorDelta rnd img1 img2 k m False > 0"
proof -
  let ?d = "channel_diffs rnd img1 img2 k m"
  have nn: "0 \<le> squared_yiq rnd ?d" by (rule squared_yiq_nonneg [OF r])
  have pos: "0 < squared_yiq rnd ?d" if "yiq_y rnd ?d \<noteq> 0"
    using luma_zero_or_bound [OF r, of img1 img2 k m] that
    by (intro squared_yiq_pos [OF r]) simp
  show "colorDelta rnd img1 img2 k m False < 0 \<longleftrightarrow> colorDelta rnd img1 img2 k m True > 0"
    using nn pos by (auto simp: colorDelta_full [OF ne] colorDelta_yOnly [OF ne])
  show "colorDelta rnd img1 img2 k m False > 0" if "colorDelta rnd img1 img2 k m True < 0"
    using that pos by (auto simp: colorDelta_full [OF ne] colorDelta_yOnly [OF ne])
qed

text \<open>The luma of three channel differences of one sign.\<close>

lemma luma_negative:
  assumes r: "binary64_rounding rnd" and d: "dr \<le> - 1" "dg \<le> 0" "db \<le> 0"
  shows "yiq_y rnd (dr, dg, db) < 0"
proof -
  have m: "representable (- (2 powi (- 4)))"
    by (intro representable_minus representable_powi) simp
  have "(2::real) powi (- 4) = 1 / 16" by (simp add: power_int_minus)
  then have c: "2 powi (- 4) \<le> rnd 0.29889531"
    by (intro b64_lower [OF r] representable_powi) simp_all
  have "(0::real) \<le> 2 powi (- 4)" by simp
  with c have c0: "0 \<le> rnd 0.29889531" by linarith
  have "dr * rnd 0.29889531 \<le> - 1 * rnd 0.29889531"
    using d(1) c0 by (intro mult_right_mono)
  with c have p1: "rnd (dr * rnd 0.29889531) \<le> - (2 powi (- 4))"
    by (intro b64_upper [OF r m]) linarith
  have "dg * rnd 0.58662247 \<le> 0"
    using d(2) by (intro mult_nonpos_nonneg b64_nonneg [OF r]) simp_all
  then have p2: "rnd (dg * rnd 0.58662247) \<le> 0" by (rule b64_nonpos [OF r])
  have "db * rnd 0.11448223 \<le> 0"
    using d(3) by (intro mult_nonpos_nonneg b64_nonneg [OF r]) simp_all
  then have p3: "rnd (db * rnd 0.11448223) \<le> 0" by (rule b64_nonpos [OF r])
  have "rnd (rnd (dr * rnd 0.29889531) + rnd (dg * rnd 0.58662247)) \<le> - (2 powi (- 4))"
    using p1 p2 by (intro b64_upper [OF r m]) linarith
  then have "rnd (rnd (rnd (dr * rnd 0.29889531) + rnd (dg * rnd 0.58662247))
      + rnd (db * rnd 0.11448223)) \<le> - (2 powi (- 4))"
    using p3 by (intro b64_upper [OF r m]) linarith
  moreover have "(0::real) < 2 powi (- 4)" by simp
  ultimately show ?thesis unfolding yiq_y_def prod.case by linarith
qed

lemma luma_positive:
  assumes r: "binary64_rounding rnd" and d: "1 \<le> dr" "0 \<le> dg" "0 \<le> db"
  shows "0 < yiq_y rnd (dr, dg, db)"
proof -
  have m: "representable (2 powi (- 4))" by (intro representable_powi) simp
  have "(2::real) powi (- 4) = 1 / 16" by (simp add: power_int_minus)
  then have c: "2 powi (- 4) \<le> rnd 0.29889531"
    by (intro b64_lower [OF r] representable_powi) simp_all
  have "1 * 2 powi (- 4) \<le> dr * rnd 0.29889531"
    using d(1) c by (intro mult_mono) simp_all
  then have p1: "2 powi (- 4) \<le> rnd (dr * rnd 0.29889531)"
    by (intro b64_lower [OF r m]) simp
  have "0 \<le> dg * rnd 0.58662247"
    using d(2) by (intro mult_nonneg_nonneg b64_nonneg [OF r]) simp_all
  then have p2: "0 \<le> rnd (dg * rnd 0.58662247)" by (rule b64_nonneg [OF r])
  have "0 \<le> db * rnd 0.11448223"
    using d(3) by (intro mult_nonneg_nonneg b64_nonneg [OF r]) simp_all
  then have p3: "0 \<le> rnd (db * rnd 0.11448223)" by (rule b64_nonneg [OF r])
  have "2 powi (- 4) \<le> rnd (rnd (dr * rnd 0.29889531) + rnd (dg * rnd 0.58662247))"
    using p1 p2 by (intro b64_lower [OF r m]) linarith
  then have "2 powi (- 4) \<le> rnd (rnd (rnd (dr * rnd 0.29889531) + rnd (dg * rnd 0.58662247))
      + rnd (db * rnd 0.11448223))"
    using p3 by (intro b64_lower [OF r m]) linarith
  moreover have "(0::real) < 2 powi (- 4)" by simp
  ultimately show ?thesis unfolding yiq_y_def prod.case by linarith
qed

text \<open>Opaque black against opaque white, in either order.\<close>

lemma black_white_luma:
  assumes r: "binary64_rounding rnd"
  shows "colorDelta rnd [0, 0, 0, 255] [255, 255, 255, 255] 0 0 True < 0"
    and "colorDelta rnd [255, 255, 255, 255] [0, 0, 0, 255] 0 0 True > 0"
    and "\<not> all_channels_equal [0, 0, 0, 255] [255, 255, 255, 255] 0 0"
    and "\<not> all_channels_equal [255, 255, 255, 255] [0, 0, 0, 255] 0 0"
proof -
  show n1: "\<not> all_channels_equal [0, 0, 0, 255] [255, 255, 255, 255] 0 0"
    by (simp add: all_channels_equal_def elem_def)
  show n2: "\<not> all_channels_equal [255, 255, 255, 255] [0, 0, 0, 255] 0 0"
    by (simp add: all_channels_equal_def elem_def)
  have d1: "channel_diffs rnd [0, 0, 0, 255] [255, 255, 255, 255] 0 0 = (- 255, - 255, - 255)"
    by (simp add: channel_diffs_def elem_def)
  have d2: "channel_diffs rnd [255, 255, 255, 255] [0, 0, 0, 255] 0 0 = (255, 255, 255)"
    by (simp add: channel_diffs_def elem_def)
  show "colorDelta rnd [0, 0, 0, 255] [255, 255, 255, 255] 0 0 True < 0"
    unfolding colorDelta_yOnly [OF n1] d1 by (rule luma_negative [OF r]) simp_all
  show "colorDelta rnd [255, 255, 255, 255] [0, 0, 0, 255] 0 0 True > 0"
    unfolding colorDelta_yOnly [OF n2] d2 by (rule luma_positive [OF r]) simp_all
qed

text \<open>
  C4, at a concrete input, in binary64 arithmetic: sample A is opaque black and sample B
  opaque white. The delta is positive, and B is not darker than A.
\<close>

theorem colorDelta_sign_counterexample:
  "colorDelta round_double [0, 0, 0, 255] [255, 255, 255, 255] 0 0 False > 0 \<and>
   \<not> darker round_double [255, 255, 255, 255] 0 [0, 0, 0, 255] 0"
proof -
  note b = black_white_luma [OF round_double_binary64]
  have "colorDelta round_double [0, 0, 0, 255] [255, 255, 255, 255] 0 0 False > 0"
    by (rule sign_law(2) [OF round_double_binary64 b(3) b(1)])
  moreover have "\<not> darker round_double [255, 255, 255, 255] 0 [0, 0, 0, 255] 0"
    using b(1) by (simp add: darker_def brighter_def)
  ultimately show ?thesis by simp
qed

text \<open>
  C4, amended. For two samples (four bytes each, inside their buffers) whose four channel
  differences are not all zero, \<open>colorDelta\<close> in full mode returns
  \<open>0.5053 y^2 + 0.299 i^2 + 0.1957 q^2\<close>, negated when \<open>y > 0\<close>; the value is negative exactly
  when sample A is brighter than sample B, and a positive value means that sample B is
  not darker than sample A. The arithmetic is that of the program, each operation
  rounded, for every binary64 rounding: the squared distance cannot round to 0 or
  below when \<open>y\<close> is not 0.
\<close>

theorem colorDelta_sign:
  assumes r: "binary64_rounding rnd"
    and "0 \<le> k" "k + 3 < int (length img1)" "0 \<le> m" "m + 3 < int (length img2)"
    and ne: "\<not> all_channels_equal img1 img2 k m"
  shows "colorDelta rnd img1 img2 k m False =
           (if yiq_y rnd (channel_diffs rnd img1 img2 k m) > 0
            then - squared_yiq rnd (channel_diffs rnd img1 img2 k m)
            else squared_yiq rnd (channel_diffs rnd img1 img2 k m)) \<and>
         (colorDelta rnd img1 img2 k m False < 0 \<longleftrightarrow> brighter rnd img1 k img2 m) \<and>
         (colorDelta rnd img1 img2 k m False > 0 \<longrightarrow> \<not> darker rnd img2 m img1 k)"
proof -
  have neg: "colorDelta rnd img1 img2 k m False < 0 \<longleftrightarrow> colorDelta rnd img1 img2 k m True > 0"
    by (rule sign_law(1) [OF r ne])
  show ?thesis
    using neg by (auto simp: colorDelta_full [OF ne] brighter_def darker_def)
qed

theorem colorDelta_sign_witness:
  "binary64_rounding round_double \<and>
   (0::int) \<le> 0 \<and> (0::int) + 3 < int (length [255, 255, 255, 255 :: byte]) \<and>
   (0::int) + 3 < int (length [0, 0, 0, 255 :: byte]) \<and>
   \<not> all_channels_equal [255, 255, 255, 255] [0, 0, 0, 255] 0 0 \<and>
   brighter round_double [255, 255, 255, 255] 0 [0, 0, 0, 255] 0 \<and>
   colorDelta round_double [255, 255, 255, 255] [0, 0, 0, 255] 0 0 False < 0"
proof -
  note b = black_white_luma [OF round_double_binary64]
  have r: "(0::int) \<le> 0" "(0::int) + 3 < int (length [255, 255, 255, 255 :: byte])"
    "(0::int) + 3 < int (length [0, 0, 0, 255 :: byte])" by simp_all
  have br: "brighter round_double [255, 255, 255, 255] 0 [0, 0, 0, 255] 0"
    using b(2) by (simp add: brighter_def)
  from colorDelta_sign [OF round_double_binary64 r(1) r(2) r(1) r(3) b(4)] br
  have "colorDelta round_double [255, 255, 255, 255] [0, 0, 0, 255] 0 0 False < 0" by blast
  with round_double_binary64 r b(4) br show ?thesis by blast
qed

text \<open>A pixel much darker in image 1 than in image 2 has a delta far above the default
  cutoff.\<close>

lemma luma_below:
  assumes r: "binary64_rounding rnd" and d: "dr \<le> - 255" "dg \<le> - 255" "db \<le> 0"
  shows "yiq_y rnd (dr, dg, db) \<le> - 128"
proof -
  have m1: "representable (- 1)" using representable_int_powi [of "- 1" 0] by simp
  have m127: "representable (- 127)" using representable_int_powi [of "- 127" 0] by simp
  have m128: "representable (- 128)" using representable_int_powi [of "- 128" 0] by simp
  have "(2::real) powi (- 2) = 1 / 4" by (simp add: power_int_minus)
  then have c1: "1 / 4 \<le> rnd 0.29889531"
    using b64_lower [OF r representable_powi [of "- 2"], of "0.29889531"] by simp
  have "(2::real) powi (- 1) = 1 / 2" by (simp add: power_int_minus)
  then have c2: "1 / 2 \<le> rnd 0.58662247"
    using b64_lower [OF r representable_powi [of "- 1"], of "0.58662247"] by simp
  have "dr * rnd 0.29889531 \<le> - 255 * rnd 0.29889531"
    using d(1) c1 by (intro mult_right_mono) simp_all
  with c1 have p1: "rnd (dr * rnd 0.29889531) \<le> - 1"
    by (intro b64_upper [OF r m1]) linarith
  have "dg * rnd 0.58662247 \<le> - 255 * rnd 0.58662247"
    using d(2) c2 by (intro mult_right_mono) simp_all
  with c2 have p2: "rnd (dg * rnd 0.58662247) \<le> - 127"
    by (intro b64_upper [OF r m127]) linarith
  have "db * rnd 0.11448223 \<le> 0"
    using d(3) by (intro mult_nonpos_nonneg b64_nonneg [OF r]) simp_all
  then have p3: "rnd (db * rnd 0.11448223) \<le> 0" by (rule b64_nonpos [OF r])
  have "rnd (rnd (dr * rnd 0.29889531) + rnd (dg * rnd 0.58662247)) \<le> - 128"
    using p1 p2 by (intro b64_upper [OF r m128]) linarith
  then have "rnd (rnd (rnd (dr * rnd 0.29889531) + rnd (dg * rnd 0.58662247))
      + rnd (db * rnd 0.11448223)) \<le> - 128"
    using p3 by (intro b64_upper [OF r m128]) linarith
  then show ?thesis unfolding yiq_y_def prod.case .
qed

lemma dark_delta_lower:
  assumes r: "binary64_rounding rnd" and ne: "\<not> all_channels_equal img1 img2 k m"
    and d: "channel_diffs rnd img1 img2 k m = (dr, dg, db)" "dr \<le> - 255" "dg \<le> - 255" "db \<le> 0"
  shows "8192 \<le> colorDelta rnd img1 img2 k m False"
proof -
  have y: "yiq_y rnd (channel_diffs rnd img1 img2 k m) \<le> - 128"
    unfolding d(1) by (rule luma_below [OF r d(2-4)])
  then have "2 powi 7 \<le> \<bar>yiq_y rnd (channel_diffs rnd img1 img2 k m)\<bar>" by simp
  then have "2 powi (2 * 7 - 1) \<le> squared_yiq rnd (channel_diffs rnd img1 img2 k m)"
    by (rule squared_yiq_lower [OF r]) simp
  then show ?thesis using y by (simp add: colorDelta_full [OF ne])
qed

lemma default_cutoff_upper:
  assumes r: "binary64_rounding rnd"
  shows "rnd (rnd (35215 * rnd 0.1) * rnd 0.1) \<le> 1024"
proof -
  have r8192: "representable 8192" using representable_int_powi [of 8192 0] by simp
  have r1024: "representable 1024" using representable_int_powi [of 1024 0] by simp
  have "(2::real) powi (- 3) = 1 / 8" by (simp add: power_int_minus)
  then have u: "rnd 0.1 \<le> 1 / 8"
    using b64_upper [OF r representable_powi [of "- 3"], of "0.1"] by simp
  have l: "0 \<le> rnd 0.1" by (rule b64_nonneg [OF r]) simp
  have a: "rnd (35215 * rnd 0.1) \<le> 8192" using u by (intro b64_upper [OF r r8192]) linarith
  have a0: "0 \<le> rnd (35215 * rnd 0.1)" using l by (intro b64_nonneg [OF r]) simp
  have "rnd (35215 * rnd 0.1) * rnd 0.1 \<le> 8192 * (1 / 8)"
    using a a0 u l by (intro mult_mono) simp_all
  then show ?thesis by (intro b64_upper [OF r r1024]) simp
qed

section \<open>The order of the validator's checks\<close>

text \<open>
  C5, at a concrete input: two images with byte buffers of 8 bytes each, one 2x1 and the
  other 1x2, and an output buffer of 4 bytes. The validation fails with the dimension
  error, not with the output size error.
\<close>

theorem validation_order_counterexample:
  "result_kind (validateInput
      \<lparr> data = Uint8Array 0 [0, 0, 0, 0, 0, 0, 0, 0], width = 2, height = 1 \<rparr>
      \<lparr> data = Uint8Array 0 [0, 0, 0, 0, 0, 0, 0, 0], width = 1, height = 2 \<rparr>
      (Some (Uint8Array 0 [0, 0, 0, 0]))) \<noteq> Some OutputSizeMismatch \<and>
   result_kind (validateInput
      \<lparr> data = Uint8Array 0 [0, 0, 0, 0, 0, 0, 0, 0], width = 2, height = 1 \<rparr>
      \<lparr> data = Uint8Array 0 [0, 0, 0, 0, 0, 0, 0, 0], width = 1, height = 2 \<rparr>
      (Some (Uint8Array 0 [0, 0, 0, 0]))) = Some DimensionMismatch"
  by (simp add: validateInput_def result_kind_def)

text \<open>
  C5, amended. The validator checks (1) the buffer types of both data buffers and of
  the output, (2) that width and height match, (3) that the two data lengths match,
  (4) that the data length is \<open>width * height * 4\<close>, and last (5) that the output length
  is \<open>width * height * 4\<close>; the error is that of the first violated check in this order.
\<close>

theorem validation_order:
  "result_kind (validateInput img1 img2 out) =
     (if bad_types img1 img2 out then Some InvalidBufferType
      else if bad_dimensions img1 img2 then Some DimensionMismatch
      else if bad_lengths img1 img2 then Some SizeMismatch
      else if bad_geometry img1 then Some SizeMismatch
      else if bad_output_length img1 out then Some OutputSizeMismatch
      else None)"
  by (auto simp: validateInput_def result_kind_def bad_types_def bad_dimensions_def bad_lengths_def
        bad_geometry_def bad_output_length_def Let_def split: option.splits)

theorem validation_order_witness:
  "result_kind (validateInput
      \<lparr> data = Uint8Array 0 [0, 0, 0, 0, 0, 0, 0, 0], width = 2, height = 1 \<rparr>
      \<lparr> data = Uint8Array 0 [0, 0, 0, 0, 0, 0, 0, 0], width = 2, height = 1 \<rparr>
      (Some (Uint8Array 0 [0, 0, 0, 0]))) = Some OutputSizeMismatch"
  using validation_order [of
      "\<lparr> data = Uint8Array 0 [0, 0, 0, 0, 0, 0, 0, 0], width = 2, height = 1 \<rparr>"
      "\<lparr> data = Uint8Array 0 [0, 0, 0, 0, 0, 0, 0, 0], width = 2, height = 1 \<rparr>"
      "Some (Uint8Array 0 [0, 0, 0, 0])"]
  by (simp add: bad_types_def bad_dimensions_def bad_lengths_def bad_geometry_def bad_output_length_def)

section \<open>The legacy adapter\<close>

lemma pixelmatch_detect_default:
  "detectAntiAliasing options = None \<Longrightarrow>
   pixelmatch rnd img1 img2 (options\<lparr>detectAntiAliasing := Some True\<rparr>) =
   pixelmatch rnd img1 img2 options"
  by (rule pixelmatch_locals_cong) (simp_all add: locals_of_def or_default_def Let_def)

text \<open>
  C9. Whenever the comparison succeeds on the buffers and dimensions given to the legacy
  adapter, with \<open>detectAntiAliasing\<close> the negation of \<open>includeAA\<close> (the default, true, when
  \<open>includeAA\<close> is absent) and the other options passed through, the adapter returns the
  \<open>diffCount\<close> of that comparison (and leaves the output buffer as that comparison does).
\<close>

theorem compat_refines_core:
  assumes "pixelmatch rnd \<lparr> data = d1, width = w, height = h \<rparr> \<lparr> data = d2, width = w, height = h \<rparr>
             (legacy_core_options lo out) = Inr (r, out')"
  shows "compat_pixelmatch rnd d1 d2 out w h lo = Inr (diffCount r, out')"
proof (cases "includeAA lo")
  case None
  let ?o = "\<lparr> threshold = legacy_threshold lo, detectAntiAliasing = None, outputData = out,
       diffMask = legacy_diffMask lo, alpha = legacy_alpha lo, aaColor = legacy_aaColor lo,
       diffColor = legacy_diffColor lo, diffColorAlt = legacy_diffColorAlt lo \<rparr>"
  have "legacy_core_options lo out = ?o\<lparr>detectAntiAliasing := Some True\<rparr>"
    using None by (simp add: legacy_core_options_def)
  with assms pixelmatch_detect_default [of ?o] show ?thesis
    using None by (simp add: compat_pixelmatch_def)
next
  case (Some b)
  with assms show ?thesis by (simp add: compat_pixelmatch_def legacy_core_options_def)
qed

theorem compat_refines_core_witness:
  "pixelmatch round_double \<lparr>data = Uint8Array 0 [0, 0, 0, 255], width = 1, height = 1\<rparr>
       \<lparr>data = Uint8Array 0 [255, 255, 255, 255], width = 1, height = 1\<rparr>
       (legacy_core_options
          \<lparr> legacy_threshold = None, includeAA = Some True, legacy_alpha = None,
            legacy_aaColor = None, legacy_diffColor = None, legacy_diffColorAlt = None,
            legacy_diffMask = None \<rparr> None) =
     Inr (\<lparr> diffCount = 1, diffPercentage = 1, totalPixels = 1, aaCount = 0, identical = False \<rparr>, None) \<and>
   compat_pixelmatch round_double (Uint8Array 0 [0, 0, 0, 255]) (Uint8Array 0 [255, 255, 255, 255])
     None 1 1
     \<lparr> legacy_threshold = None, includeAA = Some True, legacy_alpha = None,
       legacy_aaColor = None, legacy_diffColor = None, legacy_diffColorAlt = None,
       legacy_diffMask = None \<rparr> = Inr (1, None)"
proof -
  let ?d1 = "[0, 0, 0, 255] :: byte list"
  let ?d2 = "[255, 255, 255, 255] :: byte list"
  let ?img1 = "\<lparr>data = Uint8Array 0 ?d1, width = 1, height = 1\<rparr>"
  let ?img2 = "\<lparr>data = Uint8Array 0 ?d2, width = 1, height = 1\<rparr>"
  let ?opts = "legacy_core_options
          \<lparr> legacy_threshold = None, includeAA = Some True, legacy_alpha = None,
            legacy_aaColor = None, legacy_diffColor = None, legacy_diffColorAlt = None,
            legacy_diffMask = None \<rparr> None"
  let ?L = "loop_locals round_double ?img1 ?img2 ?opts"
  note rd = round_double_binary64
  have v: "validateInput ?img1 ?img2 (outputData ?opts) = Inr ()"
    by (simp add: validateInput_def legacy_core_options_def)
  have al: "aligned ?img1" "aligned ?img2" by (simp_all add: aligned_def)
  have L: "data1 ?L = ?d1" "data2 ?L = ?d2" "wd ?L = 1" "ht ?L = 1" "fl ?L = round_double"
    "a32 ?L = words ?d1 1" "b32 ?L = words ?d2 1" "\<not> detectAA ?L"
    "maxDelta ?L = round_double (round_double (35215 * round_double 0.1) * round_double 0.1)"
    by (simp_all add: loop_locals_def locals_of_def or_default_def legacy_core_options_def Let_def)
  have w: "words ?d1 1 ! 0 \<noteq> words ?d2 1 ! 0"
    by (simp add: words_def word_at_def word_rcat_def)
  then have ni: "\<not> words_identical (a32 ?L) (b32 ?L) (width ?img1 * height ?img1)"
    by (simp add: words_identical_def L)
  have pd: "pixel_delta ?L (0, 0) = colorDelta round_double ?d1 ?d2 0 0 False"
    using w by (simp add: pixel_delta_def L)
  have cd: "channel_diffs round_double ?d1 ?d2 0 0 = (- 255, - 255, - 255)"
    by (simp add: channel_diffs_def elem_def)
  have big: "8192 \<le> colorDelta round_double ?d1 ?d2 0 0 False"
    by (rule dark_delta_lower [OF rd black_white_luma(3) [OF rd] cd]) simp_all
  have cut: "maxDelta ?L \<le> 1024" unfolding L(9) by (rule default_cutoff_upper [OF rd])
  have c: "counted_diff ?L (0, 0)" "\<not> counted_aa ?L (0, 0)"
    using big cut by (simp_all add: counted_diff_def counted_aa_def exceeds_def isAA_def pd L)
  have ps: "pixels (wd ?L) (ht ?L) = [(0, 0)]" by (simp add: L pixels_def upto_rec1)
  have od: "outputData ?opts = None" by (simp add: legacy_core_options_def)
  have one: "round_double 1 = 1"
    using b64_fix [OF rd, of 1] representable_int_powi [of 1 0] by simp
  have h: "pixelmatch round_double ?img1 ?img2 ?opts =
     Inr (\<lparr> diffCount = 1, diffPercentage = 1, totalPixels = 1, aaCount = 0, identical = False \<rparr>, None)"
    unfolding pixelmatch_aligned [OF v al]
    using ni c
    by (simp add: Let_def pixel_step_diff pixel_step_aa pixel_step_no_output ps buildResult_def one od)
  from compat_refines_core [OF h] h show ?thesis by simp
qed

section \<open>The anti-aliasing classifier\<close>

lemma pass1_char:
  "mn \<le> 0 \<Longrightarrow> 0 \<le> mx \<Longrightarrow> z \<le> 2 \<Longrightarrow>
   pass1 ds z mn mx =
     (if z + length (filter (\<lambda>d. d = 0) ds) > 2 then None
      else Some (fold min ds mn, fold max ds mx))"
proof (induction ds arbitrary: z mn mx)
  case Nil
  then show ?case by simp
next
  case (Cons d ds)
  show ?case
  proof (cases "d = 0")
    case True
    with Cons.prems Cons.IH [of mn mx "z + 1"] show ?thesis
      by (simp add: min_absorb2 max_absorb2)
  next
    case False
    note nz = this
    show ?thesis
    proof (cases "d < mn")
      case True
      with nz Cons.prems Cons.IH [of d mx z] show ?thesis
        by (simp add: min_absorb1 max_absorb2)
    next
      case False
      note ge = this
      show ?thesis
      proof (cases "d > mx")
        case True
        with nz ge Cons.prems Cons.IH [of mn d z] show ?thesis
          by (simp add: min_absorb2 max_absorb1)
      next
        case False
        with nz ge Cons.prems Cons.IH [of mn mx z] show ?thesis
          by (simp add: min_absorb2 max_absorb2)
      qed
    qed
  qed
qed

lemma pass2_char:
  "pass2 dl mn mx a b w h ns \<longleftrightarrow>
   (\<exists>(x, y) \<in> set ns. (dl (x, y) = mn \<or> dl (x, y) = mx) \<and>
      (hasManySiblings a x y w h \<or> hasManySiblings b x y w h))"
  by (induction ns) auto

lemma zeroes0_le: "zeroes0 x1 y1 w h \<le> 2"
  by (simp add: zeroes0_def Let_def)

lemma zeroes0_border:
  "0 \<le> x1 \<Longrightarrow> x1 < w \<Longrightarrow> 0 \<le> y1 \<Longrightarrow> y1 < h \<Longrightarrow>
   zeroes0 x1 y1 w h = (if touches_border x1 y1 w h then 1 else 0)"
  by (auto simp: zeroes0_def touches_border_def Let_def max_def min_def)

lemma fold_min_Min: "fold min ds (m::real) = Min (set (m # ds))"
  by (rule Min.set_eq_fold [symmetric])

lemma fold_max_Max: "fold max ds (m::real) = Max (set (m # ds))"
  by (rule Max.set_eq_fold [symmetric])

lemma antialiased_scan_char:
  "antialiased_scan rnd ns img x1 y1 w h a b \<longleftrightarrow>
     zeroes0 x1 y1 w h + length (filter (\<lambda>n. neighbour_delta rnd img x1 y1 w n = 0) ns) \<le> 2 \<and>
     Min (set (0 # map (neighbour_delta rnd img x1 y1 w) ns)) \<noteq> 0 \<and>
     Max (set (0 # map (neighbour_delta rnd img x1 y1 w) ns)) \<noteq> 0 \<and>
     (\<exists>(x, y) \<in> set ns.
        (neighbour_delta rnd img x1 y1 w (x, y) = Min (set (0 # map (neighbour_delta rnd img x1 y1 w) ns)) \<or>
         neighbour_delta rnd img x1 y1 w (x, y) = Max (set (0 # map (neighbour_delta rnd img x1 y1 w) ns))) \<and>
        (hasManySiblings a x y w h \<or> hasManySiblings b x y w h))"
proof -
  let ?dl = "neighbour_delta rnd img x1 y1 w"
  have cnt: "length (filter (\<lambda>d. d = 0) (map ?dl ns)) = length (filter (\<lambda>n. ?dl n = 0) ns)"
    by (simp add: filter_map comp_def)
  have p1: "pass1 (map ?dl ns) (zeroes0 x1 y1 w h) 0 0 =
     (if zeroes0 x1 y1 w h + length (filter (\<lambda>n. ?dl n = 0) ns) > 2 then None
      else Some (Min (set (0 # map ?dl ns)), Max (set (0 # map ?dl ns))))"
    using pass1_char [of 0 0 "zeroes0 x1 y1 w h" "map ?dl ns"] zeroes0_le [of x1 y1 w h]
    by (simp only: cnt fold_min_Min fold_max_Max)
  show ?thesis
    unfolding antialiased_scan_def Let_def p1 pass2_char by auto
qed

lemma antialiased_scan_perm:
  assumes "mset ns' = mset ns"
  shows "antialiased_scan rnd ns' img x1 y1 w h a b = antialiased_scan rnd ns img x1 y1 w h a b"
proof -
  have s: "set ns' = set ns" using assms by (rule mset_eq_setD)
  have "mset (filter P ns') = mset (filter P ns)" for P
    using assms by simp
  then have l: "length (filter P ns') = length (filter P ns)" for P
    by (metis size_mset)
  show ?thesis unfolding antialiased_scan_char by (simp add: s l)
qed

lemma antialiased_char:
  assumes "0 \<le> x1" "x1 < w" "0 \<le> y1" "y1 < h"
  shows "antialiased rnd img x1 y1 w h a b \<longleftrightarrow>
     zero_count rnd img x1 y1 w h \<le> 2 \<and> min_delta rnd img x1 y1 w h \<noteq> 0 \<and>
     max_delta rnd img x1 y1 w h \<noteq> 0 \<and>
     (\<exists>(x, y) \<in> set (window x1 y1 w h).
        (neighbour_delta rnd img x1 y1 w (x, y) = min_delta rnd img x1 y1 w h \<or>
         neighbour_delta rnd img x1 y1 w (x, y) = max_delta rnd img x1 y1 w h) \<and>
        (hasManySiblings a x y w h \<or> hasManySiblings b x y w h))"
  unfolding antialiased_def zero_count_def min_delta_def max_delta_def
    zeroes0_border [OF assms, symmetric]
  by (rule antialiased_scan_char)

text \<open>Unfolding the quantities of pass 1 on a concrete input.\<close>

lemmas window_eval = zero_count_def min_delta_def max_delta_def touches_border_def window_def
  neighbour_delta_def colorDelta_def elem_def Let_def upto_rec1

text \<open>
  C3. For a pixel of an image (whose buffer has \<open>width * height * 4\<close> bytes), the
  classifier returns false when the zero-delta count exceeds 2, the count starting at 1
  if the pixel is on the image border and at 0 otherwise and growing by one for each
  neighbour whose luma delta is exactly 0; it also returns false when the most negative
  neighbour delta (\<open>min\<close>) is 0 or the most positive one (\<open>max\<close>) is 0. This holds
  whatever the rounding of the arithmetic is.
\<close>

theorem antialiased_false_when_flat:
  assumes "0 \<le> x1" "x1 < w" "0 \<le> y1" "y1 < h" and "int (length img) = w * h * 4"
    and "zero_count rnd img x1 y1 w h > 2 \<or> min_delta rnd img x1 y1 w h = 0 \<or>
         max_delta rnd img x1 y1 w h = 0"
  shows "\<not> antialiased rnd img x1 y1 w h a b"
  using assms(6) unfolding antialiased_char [OF assms(1-4)] by linarith

theorem antialiased_false_when_flat_witness:
  "(0::int) \<le> 0 \<and> (0::int) < 2 \<and>
   int (length [0, 0, 0, 255, 0, 0, 0, 255, 0, 0, 0, 255, 0, 0, 0, 255 :: byte]) = 2 * 2 * 4 \<and>
   zero_count round_double [0, 0, 0, 255, 0, 0, 0, 255, 0, 0, 0, 255, 0, 0, 0, 255] 0 0 2 2 > 2 \<and>
   \<not> antialiased round_double [0, 0, 0, 255, 0, 0, 0, 255, 0, 0, 0, 255, 0, 0, 0, 255] 0 0 2 2
       (words [0, 0, 0, 255, 0, 0, 0, 255, 0, 0, 0, 255, 0, 0, 0, 255] 4)
       (words [255, 255, 255, 255, 0, 0, 0, 255, 0, 0, 0, 255, 0, 0, 0, 255] 4)"
proof -
  have r: "(0::int) \<le> 0" "(0::int) < 2" by simp_all
  have l: "int (length [0, 0, 0, 255, 0, 0, 0, 255, 0, 0, 0, 255, 0, 0, 0, 255 :: byte]) = 2 * 2 * 4"
    by simp
  have z: "zero_count round_double [0, 0, 0, 255, 0, 0, 0, 255, 0, 0, 0, 255, 0, 0, 0, 255] 0 0 2 2 > 2"
    by (simp add: window_eval)
  from antialiased_false_when_flat [OF r r l disjI1 [OF z]] r l z show ?thesis by simp
qed

lemma pass1_completes:
  assumes "0 \<le> x1" "x1 < w" "0 \<le> y1" "y1 < h" and "zero_count rnd img x1 y1 w h \<le> 2"
  shows "pass1 (map (neighbour_delta rnd img x1 y1 w) (window x1 y1 w h)) (zeroes0 x1 y1 w h) 0 0 =
     Some (min_delta rnd img x1 y1 w h, max_delta rnd img x1 y1 w h)"
proof -
  let ?dl = "neighbour_delta rnd img x1 y1 w"
  let ?ns = "window x1 y1 w h"
  have cnt: "length (filter (\<lambda>d. d = 0) (map ?dl ?ns)) = length (filter (\<lambda>n. ?dl n = 0) ?ns)"
    by (simp add: filter_map comp_def)
  have z: "\<not> zeroes0 x1 y1 w h + length (filter (\<lambda>n. ?dl n = 0) ?ns) > 2"
    using assms(5) by (simp add: zero_count_def zeroes0_border [OF assms(1-4)])
  show ?thesis
    using pass1_char [of 0 0 "zeroes0 x1 y1 w h" "map ?dl ?ns"] zeroes0_le [of x1 y1 w h] z
    by (simp only: cnt fold_min_Min fold_max_Max min_delta_def max_delta_def if_False simp_thms)
qed

text \<open>
  C2. For a pixel of an image (whose buffer has \<open>width * height * 4\<close> bytes, with word
  arrays of \<open>width * height\<close> words) whose pass 1 completes (the zero-delta count stays at
  most 2) with \<open>min < 0\<close> and \<open>max > 0\<close>: pass 1 ends with these \<open>min\<close> and \<open>max\<close>; the
  classifier returns true exactly when some neighbour in the clipped 3x3 window has a
  luma delta equal to \<open>min\<close> or to \<open>max\<close> and \<open>hasManySiblings\<close> holds at that neighbour
  in one of the two word arrays; and the classifier gives the same result on every
  other scan order of the neighbours. This holds whatever the rounding of the arithmetic
  is.
\<close>

theorem antialiased_pass2:
  assumes "0 \<le> x1" "x1 < w" "0 \<le> y1" "y1 < h"
    and "int (length img) = w * h * 4" "length a = nat (w * h)" "length b = nat (w * h)"
    and "zero_count rnd img x1 y1 w h \<le> 2" "min_delta rnd img x1 y1 w h < 0"
      "max_delta rnd img x1 y1 w h > 0"
  shows "pass1 (map (neighbour_delta rnd img x1 y1 w) (window x1 y1 w h)) (zeroes0 x1 y1 w h) 0 0 =
           Some (min_delta rnd img x1 y1 w h, max_delta rnd img x1 y1 w h) \<and>
         (antialiased rnd img x1 y1 w h a b \<longleftrightarrow>
           (\<exists>(x, y) \<in> set (window x1 y1 w h).
              (neighbour_delta rnd img x1 y1 w (x, y) = min_delta rnd img x1 y1 w h \<or>
               neighbour_delta rnd img x1 y1 w (x, y) = max_delta rnd img x1 y1 w h) \<and>
              (hasManySiblings a x y w h \<or> hasManySiblings b x y w h))) \<and>
         (\<forall>ns. mset ns = mset (window x1 y1 w h) \<longrightarrow>
            antialiased_scan rnd ns img x1 y1 w h a b = antialiased rnd img x1 y1 w h a b)"
proof (intro conjI)
  show "pass1 (map (neighbour_delta rnd img x1 y1 w) (window x1 y1 w h)) (zeroes0 x1 y1 w h) 0 0 =
           Some (min_delta rnd img x1 y1 w h, max_delta rnd img x1 y1 w h)"
    by (rule pass1_completes [OF assms(1-4) assms(8)])
  have nz: "min_delta rnd img x1 y1 w h \<noteq> 0" "max_delta rnd img x1 y1 w h \<noteq> 0"
    using assms(9,10) by simp_all
  show "antialiased rnd img x1 y1 w h a b \<longleftrightarrow>
           (\<exists>(x, y) \<in> set (window x1 y1 w h).
              (neighbour_delta rnd img x1 y1 w (x, y) = min_delta rnd img x1 y1 w h \<or>
               neighbour_delta rnd img x1 y1 w (x, y) = max_delta rnd img x1 y1 w h) \<and>
              (hasManySiblings a x y w h \<or> hasManySiblings b x y w h))"
    unfolding antialiased_char [OF assms(1-4)] using assms(8) nz by (simp only: simp_thms)
  show "\<forall>ns. mset ns = mset (window x1 y1 w h) \<longrightarrow>
            antialiased_scan rnd ns img x1 y1 w h a b = antialiased rnd img x1 y1 w h a b"
    unfolding antialiased_def by (intro allI impI) (rule antialiased_scan_perm)
qed

theorem antialiased_pass2_witness:
  "(0::int) \<le> 0 \<and> (0::int) < 1 \<and> (0::int) \<le> 1 \<and> (1::int) < 3 \<and>
   int (length [0, 0, 0, 255, 128, 128, 128, 255, 255, 255, 255, 255 :: byte]) = 1 * 3 * 4 \<and>
   zero_count round_double [0, 0, 0, 255, 128, 128, 128, 255, 255, 255, 255, 255] 0 1 1 3 \<le> 2 \<and>
   min_delta round_double [0, 0, 0, 255, 128, 128, 128, 255, 255, 255, 255, 255] 0 1 1 3 < 0 \<and>
   max_delta round_double [0, 0, 0, 255, 128, 128, 128, 255, 255, 255, 255, 255] 0 1 1 3 > 0 \<and>
   (antialiased round_double [0, 0, 0, 255, 128, 128, 128, 255, 255, 255, 255, 255] 0 1 1 3
       (words [0, 0, 0, 255, 128, 128, 128, 255, 255, 255, 255, 255] 3)
       (words [0, 0, 0, 255, 0, 0, 0, 255, 255, 255, 255, 255] 3) \<longleftrightarrow>
    (\<exists>(x, y) \<in> set (window 0 1 1 3).
       (neighbour_delta round_double [0, 0, 0, 255, 128, 128, 128, 255, 255, 255, 255, 255] 0 1 1 (x, y) =
          min_delta round_double [0, 0, 0, 255, 128, 128, 128, 255, 255, 255, 255, 255] 0 1 1 3 \<or>
        neighbour_delta round_double [0, 0, 0, 255, 128, 128, 128, 255, 255, 255, 255, 255] 0 1 1 (x, y) =
          max_delta round_double [0, 0, 0, 255, 128, 128, 128, 255, 255, 255, 255, 255] 0 1 1 3) \<and>
       (hasManySiblings (words [0, 0, 0, 255, 128, 128, 128, 255, 255, 255, 255, 255] 3) x y 1 3 \<or>
        hasManySiblings (words [0, 0, 0, 255, 0, 0, 0, 255, 255, 255, 255, 255] 3) x y 1 3)))"
proof -
  let ?img = "[0, 0, 0, 255, 128, 128, 128, 255, 255, 255, 255, 255] :: byte list"
  note rd = round_double_binary64
  have r: "(0::int) \<le> 0" "(0::int) < 1" "(0::int) \<le> 1" "(1::int) < 3" by simp_all
  have l: "int (length ?img) = 1 * 3 * 4"
    "length (words ?img 3) = nat (1 * 3)"
    "length (words [0, 0, 0, 255, 0, 0, 0, 255, 255, 255, 255, 255] 3) = nat (1 * 3)"
    by (simp_all add: words_def)
  have win: "window 0 1 1 3 = [(0, 0), (0, 2)]" by (simp add: window_def upto_rec1)
  have ne0: "\<not> all_channels_equal ?img ?img 4 0" and ne2: "\<not> all_channels_equal ?img ?img 4 8"
    by (simp_all add: all_channels_equal_def elem_def)
  have cd0: "channel_diffs round_double ?img ?img 4 0 = (128, 128, 128)"
    and cd2: "channel_diffs round_double ?img ?img 4 8 = (- 127, - 127, - 127)"
    by (simp_all add: channel_diffs_def elem_def)
  have up: "0 < colorDelta round_double ?img ?img 4 0 True"
    unfolding colorDelta_yOnly [OF ne0] cd0 by (rule luma_positive [OF rd]) simp_all
  have dn: "colorDelta round_double ?img ?img 4 8 True < 0"
    unfolding colorDelta_yOnly [OF ne2] cd2 by (rule luma_negative [OF rd]) simp_all
  have z: "zero_count round_double ?img 0 1 1 3 \<le> 2"
    using up dn by (simp add: zero_count_def touches_border_def win neighbour_delta_def)
  have mn: "min_delta round_double ?img 0 1 1 3 < 0"
    using up dn by (simp add: min_delta_def win neighbour_delta_def)
  have mx: "max_delta round_double ?img 0 1 1 3 > 0"
    using up dn by (simp add: max_delta_def win neighbour_delta_def)
  from antialiased_pass2 [OF r l z mn mx] r l(1) z mn mx show ?thesis by blast
qed

lemma not_antialiased_min0:
  assumes "0 \<le> x1" "x1 < w" "0 \<le> y1" "y1 < h" and "min_delta rnd img x1 y1 w h = 0"
  shows "\<not> antialiased rnd img x1 y1 w h a b"
  using assms(5) unfolding antialiased_char [OF assms(1-4)] by simp

section \<open>Writes to the output buffer\<close>

lemma bytes_store:
  "bytes (store ob i v) =
     (if 0 \<le> i \<and> i < int (length (bytes ob)) then (bytes ob)[nat i := stored ob v] else bytes ob)"
  by (cases ob) simp_all

lemma stored_store [simp]: "stored (store ob i v) = stored ob"
  by (cases ob) (simp_all add: fun_eq_iff)

lemma length_store [simp]: "length (bytes (store ob i v)) = length (bytes ob)"
  by (simp add: bytes_store)

lemma isPixelData_store [simp]: "isPixelData (store ob i v) = isPixelData ob"
  by (cases ob) simp_all

lemma byteOffset_store [simp]: "byteOffset (store ob i v) = byteOffset ob"
  by (cases ob) simp_all

lemma store_nth:
  "j < length (bytes ob) \<Longrightarrow>
   bytes (store ob i v) ! j = (if int j = i then stored ob v else bytes ob ! j)"
  by (auto simp: bytes_store nth_list_update)

lemma stored_drawPixel [simp]: "stored (drawPixel ob pos r g b) = stored ob"
  by (simp add: drawPixel_def)

lemma length_drawPixel [simp]: "length (bytes (drawPixel ob pos r g b)) = length (bytes ob)"
  by (simp add: drawPixel_def)

lemma drawPixel_nth:
  "j < length (bytes ob) \<Longrightarrow>
   bytes (drawPixel ob pos r g b) ! j =
     (if int j = pos then stored ob r
      else if int j = pos + 1 then stored ob g
      else if int j = pos + 2 then stored ob b
      else if int j = pos + 3 then stored ob 255
      else bytes ob ! j)"
  by (simp add: drawPixel_def store_nth)

lemma drawPixel_outside:
  "j < length (bytes ob) \<Longrightarrow> int j div 4 \<noteq> i \<Longrightarrow>
   bytes (drawPixel ob (4 * i) r g b) ! j = bytes ob ! j"
  by (auto simp: drawPixel_nth)

lemma drawPixel_inside:
  "j < length (bytes ob) \<Longrightarrow> length (bytes ob') = length (bytes ob) \<Longrightarrow> stored ob' = stored ob \<Longrightarrow>
   bytes (drawPixel ob' (4 * (int j div 4)) r g b) ! j = bytes (drawPixel ob (4 * (int j div 4)) r g b) ! j"
proof -
  assume a: "j < length (bytes ob)" "length (bytes ob') = length (bytes ob)" "stored ob' = stored ob"
  have "int j = 4 * (int j div 4) \<or> int j = 4 * (int j div 4) + 1 \<or>
        int j = 4 * (int j div 4) + 2 \<or> int j = 4 * (int j div 4) + 3"
    by presburger
  with a show ?thesis by (auto simp: drawPixel_nth)
qed

text \<open>\<open>drawGrayPixel\<close> writes the gray level to the three colour bytes of the pixel and
  255 to its alpha byte.\<close>

lemma drawGrayPixel_gray_level:
  "drawGrayPixel rnd img i a ob =
     drawPixel ob i (gray_level rnd img i a) (gray_level rnd img i a) (gray_level rnd img i a)"
  by (simp only: drawGrayPixel_def gray_level_def Let_def)

lemma drawGrayPixel_own_pixel:
  assumes "j < length (bytes ob)"
  shows "bytes (drawGrayPixel rnd img (4 * (int j div 4)) a ob) ! j =
     (if j mod 4 = 3 then stored ob 255
      else stored ob (gray_level rnd img (4 * (int j div 4)) a))"
proof -
  have "(int j = 4 * (int j div 4) \<or> int j = 4 * (int j div 4) + 1 \<or>
         int j = 4 * (int j div 4) + 2) \<and> j mod 4 \<noteq> 3 \<or>
        int j = 4 * (int j div 4) + 3 \<and> j mod 4 = 3"
    by presburger
  with assms show ?thesis
    by (auto simp: drawGrayPixel_gray_level drawPixel_nth)
qed

lemma stored_drawGrayPixel [simp]: "stored (drawGrayPixel rnd img i a ob) = stored ob"
  by (simp add: drawGrayPixel_def Let_def)

lemma length_drawGrayPixel [simp]:
  "length (bytes (drawGrayPixel rnd img i a ob)) = length (bytes ob)"
  by (simp add: drawGrayPixel_def Let_def)

lemma gray_all_props:
  "length (bytes (gray_all rnd img a is ob)) = length (bytes ob) \<and>
   stored (gray_all rnd img a is ob) = stored ob"
  by (induction "is" arbitrary: ob) simp_all

lemma gray_all_nth:
  "j < length (bytes ob) \<Longrightarrow>
   bytes (gray_all rnd img a is ob) ! j =
     (if int j div 4 \<in> set is then bytes (drawGrayPixel rnd img (4 * (int j div 4)) a ob) ! j
      else bytes ob ! j)"
proof (induction "is" arbitrary: ob)
  case Nil
  then show ?case by simp
next
  case (Cons i "is")
  let ?ob1 = "drawGrayPixel rnd img (4 * i) a ob"
  have j1: "j < length (bytes ?ob1)" using Cons.prems by simp
  note IH = Cons.IH [OF j1]
  show ?case
  proof (cases "int j div 4 \<in> set is")
    case True
    then show ?thesis
      using IH Cons.prems drawPixel_inside [of j ob ?ob1]
      by (simp add: drawGrayPixel_def Let_def)
  next
    case False
    show ?thesis
    proof (cases "int j div 4 = i")
      case True
      with False IH show ?thesis by simp
    next
      case ne: False
      with False IH Cons.prems show ?thesis
        by (simp add: drawGrayPixel_def Let_def drawPixel_outside)
    qed
  qed
qed

lemma validate_output_length:
  "validateInput img1 img2 (Some ob) = Inr () \<Longrightarrow>
   int (length (bytes ob)) = width img1 * height img1 * 4"
  by (simp add: validateInput_def Let_def split: if_splits option.splits)

lemma words_nth: "i < nat len \<Longrightarrow> words bs len ! i = word_at bs i"
  by (simp add: words_def)

lemma words_identical_iff:
  "words_identical (words bs1 len) (words bs2 len) len \<longleftrightarrow>
   (\<forall>i < nat len. word_at bs1 i = word_at bs2 i)"
  by (auto simp: words_identical_def list_all_iff words_nth)

text \<open>
  For views at byte offsets that are multiples of 4 whose buffers are word-for-word
  identical, the comparison returns \<open>diffCount = 0\<close>, \<open>aaCount = 0\<close>, \<open>identical = true\<close>;
  and if an output buffer was supplied and \<open>diffMask\<close> is not set, the output ends with the
  gray level of each pixel of image 1 (at the configured alpha) in the pixel's three
  colour bytes and 255 in its alpha byte.
\<close>

lemma identical_fast_path_aligned:
  assumes v: "validateInput img1 img2 (outputData options) = Inr ()"
    and al: "aligned img1" "aligned img2"
    and same: "\<forall>i < nat (width img1 * height img1).
                 word_at (bytes (data img1)) i = word_at (bytes (data img2)) i"
  shows "\<exists>r out'. pixelmatch rnd img1 img2 options = Inr (r, out') \<and>
     diffCount r = 0 \<and> aaCount r = 0 \<and> identical r \<and>
     (\<forall>ob. outputData options = Some ob \<longrightarrow> diffMask options \<noteq> Some True \<longrightarrow>
        (\<exists>ob'. out' = Some ob' \<and> length (bytes ob') = length (bytes ob) \<and>
           (\<forall>j < length (bytes ob).
              bytes ob' ! j =
                (if j mod 4 = 3 then stored ob 255
                 else stored ob (gray_level rnd (bytes (data img1)) (4 * (int j div 4))
                                   (or_default (rnd 0.1) (alpha options)))))))"
proof -
  let ?L = "loop_locals rnd img1 img2 options"
  let ?len = "width img1 * height img1"
  let ?al = "or_default (rnd 0.1) (alpha options)"
  have id: "words_identical (a32 ?L) (b32 ?L) ?len"
    using same by (simp add: loop_locals_def locals_of_def Let_def words_identical_iff)
  have pm: "pixelmatch rnd img1 img2 options =
      Inr (buildResult rnd 0 0 ?len True,
           if \<not> diffMaskL ?L
           then map_option (gray_all rnd (data1 ?L) (alphaL ?L) [0..?len - 1]) (outputData options)
           else outputData options)"
    using id by (simp add: pixelmatch_aligned [OF v al] Let_def)
  have out: "\<exists>ob'. (if \<not> diffMaskL ?L
           then map_option (gray_all rnd (data1 ?L) (alphaL ?L) [0..?len - 1]) (outputData options)
           else outputData options) = Some ob' \<and> length (bytes ob') = length (bytes ob) \<and>
           (\<forall>j < length (bytes ob).
              bytes ob' ! j =
                (if j mod 4 = 3 then stored ob 255
                 else stored ob (gray_level rnd (bytes (data img1)) (4 * (int j div 4)) ?al)))"
    if o: "outputData options = Some ob" and m: "diffMask options \<noteq> Some True" for ob
  proof -
    have nm: "\<not> diffMaskL ?L"
      using m by (cases "diffMask options")
        (simp_all add: loop_locals_def locals_of_def Let_def or_default_def)
    have len: "int (length (bytes ob)) = ?len * 4"
      using v o validate_output_length [of img1 img2 ob] by simp
    have d1: "data1 ?L = bytes (data img1)" and al: "alphaL ?L = ?al"
      by (simp_all add: loop_locals_def locals_of_def Let_def)
    have "bytes (gray_all rnd (bytes (data img1)) ?al [0..?len - 1] ob) ! j =
            (if j mod 4 = 3 then stored ob 255
             else stored ob (gray_level rnd (bytes (data img1)) (4 * (int j div 4)) ?al))"
      if j: "j < length (bytes ob)" for j
    proof -
      from j len have "0 \<le> int j div 4 \<and> int j div 4 \<le> ?len - 1" by linarith
      then have "int j div 4 \<in> set [0..?len - 1]" by simp
      with j show ?thesis by (simp only: gray_all_nth if_True drawGrayPixel_own_pixel)
    qed
    then show ?thesis using nm o by (simp add: d1 al gray_all_props)
  qed
  show ?thesis
    unfolding pm using out by (simp add: buildResult_def)
qed

text \<open>
  C8, at a concrete input: two 1x1 images with the same four bytes, both views at byte
  offset 1 of their buffers, and an output buffer of four bytes. The validator accepts
  them, and the comparison throws the \<open>RangeError\<close>: it returns no result and writes
  nothing to the output.
\<close>

theorem identical_misaligned:
  "validateInput \<lparr>data = Uint8Array 1 [10, 20, 30, 255], width = 1, height = 1\<rparr>
      \<lparr>data = Uint8Array 1 [10, 20, 30, 255], width = 1, height = 1\<rparr>
      (Some (Uint8Array 0 [0, 0, 0, 0])) = Inr () \<and>
   pixelmatch rnd \<lparr>data = Uint8Array 1 [10, 20, 30, 255], width = 1, height = 1\<rparr>
      \<lparr>data = Uint8Array 1 [10, 20, 30, 255], width = 1, height = 1\<rparr>
      \<lparr> threshold = None, detectAntiAliasing = None, outputData = Some (Uint8Array 0 [0, 0, 0, 0]),
        diffMask = None, alpha = None, aaColor = None, diffColor = None, diffColorAlt = None \<rparr> =
     Inl RangeError"
  by (simp add: validateInput_def pixelmatch_def Uint32Array_def)

theorem identical_misaligned_witness:
  "pixelmatch round_double \<lparr>data = Uint8Array 1 [10, 20, 30, 255], width = 1, height = 1\<rparr>
      \<lparr>data = Uint8Array 1 [10, 20, 30, 255], width = 1, height = 1\<rparr>
      \<lparr> threshold = None, detectAntiAliasing = None, outputData = Some (Uint8Array 0 [0, 0, 0, 0]),
        diffMask = None, alpha = None, aaColor = None, diffColor = None, diffColorAlt = None \<rparr> =
     Inl RangeError"
  using identical_misaligned [of round_double] by (simp only:)

section \<open>The output under \<open>diffMask\<close>\<close>

lemma pixel_step_mask:
  "diffMaskL L \<Longrightarrow>
   pixel_step L p (d, a, Some ob) =
     (d + (if counted_diff L p then 1 else 0), a + (if counted_aa L p then 1 else 0),
      Some (if counted_diff L p then paint ob (4 * (snd p * wd L + fst p)) (diff_colour L p) else ob))"
  by (auto simp: pixel_step_def Let_def counted_diff_def counted_aa_def exceeds_def paint_def
        diff_colour_def mult.commute split: prod.splits)

lemma stored_paint [simp]: "stored (paint ob pos c) = stored ob"
  by (cases c) (simp add: paint_def)

lemma length_paint [simp]: "length (bytes (paint ob pos c)) = length (bytes ob)"
  by (cases c) (simp add: paint_def)

lemma paint_outside:
  "j < length (bytes ob) \<Longrightarrow> int j div 4 \<noteq> i \<Longrightarrow> bytes (paint ob (4 * i) c) ! j = bytes ob ! j"
  by (cases c) (simp add: paint_def drawPixel_outside)

lemma paint_inside:
  assumes "j < length (bytes ob)" "length (bytes ob') = length (bytes ob)" "stored ob' = stored ob"
  shows "bytes (paint ob' (4 * (int j div 4)) c) ! j = bytes (paint ob (4 * (int j div 4)) c) ! j"
proof -
  obtain r g b where c: "c = (r, g, b)" by (cases c) auto
  show ?thesis unfolding c paint_def prod.case by (rule drawPixel_inside [OF assms])
qed

lemma scan_mask_output:
  assumes "diffMaskL L"
    and "\<forall>p \<in> set ps. p = ((snd p * wd L + fst p) mod wd L, (snd p * wd L + fst p) div wd L)"
  shows "\<exists>ob'. snd (snd (scan L ps (d, a, Some ob))) = Some ob' \<and>
     length (bytes ob') = length (bytes ob) \<and> stored ob' = stored ob \<and>
     (\<forall>j < length (bytes ob).
        bytes ob' ! j =
          (if pixel_of_byte (wd L) j \<in> set ps \<and> counted_diff L (pixel_of_byte (wd L) j)
           then bytes (paint ob (4 * (int j div 4)) (diff_colour L (pixel_of_byte (wd L) j))) ! j
           else bytes ob ! j))"
  using assms(2)
proof (induction ps arbitrary: d a ob)
  case Nil
  then show ?case by simp
next
  case (Cons p ps)
  let ?i = "snd p * wd L + fst p"
  let ?ob1 = "if counted_diff L p then paint ob (4 * ?i) (diff_colour L p) else ob"
  have p: "p = (?i mod wd L, ?i div wd L)" using Cons.prems by simp
  have rest: "\<forall>q \<in> set ps. q = ((snd q * wd L + fst q) mod wd L, (snd q * wd L + fst q) div wd L)"
    using Cons.prems by simp
  from Cons.IH [OF rest, of "d + (if counted_diff L p then 1 else 0)"
      "a + (if counted_aa L p then 1 else 0)" ?ob1]
  obtain ob' where ob':
    "snd (snd (scan L ps (d + (if counted_diff L p then 1 else 0),
        a + (if counted_aa L p then 1 else 0), Some ?ob1))) = Some ob'"
    "length (bytes ob') = length (bytes ?ob1)" "stored ob' = stored ?ob1"
    "\<forall>j < length (bytes ?ob1).
        bytes ob' ! j =
          (if pixel_of_byte (wd L) j \<in> set ps \<and> counted_diff L (pixel_of_byte (wd L) j)
           then bytes (paint ?ob1 (4 * (int j div 4)) (diff_colour L (pixel_of_byte (wd L) j))) ! j
           else bytes ?ob1 ! j)"
    by blast
  have l1: "length (bytes ?ob1) = length (bytes ob)" and s1: "stored ?ob1 = stored ob" by simp_all
  have "bytes ob' ! j =
          (if pixel_of_byte (wd L) j \<in> set (p # ps) \<and> counted_diff L (pixel_of_byte (wd L) j)
           then bytes (paint ob (4 * (int j div 4)) (diff_colour L (pixel_of_byte (wd L) j))) ! j
           else bytes ob ! j)" if j: "j < length (bytes ob)" for j
  proof -
    let ?q = "pixel_of_byte (wd L) j"
    from j l1 ob'(4) have e: "bytes ob' ! j =
          (if ?q \<in> set ps \<and> counted_diff L ?q
           then bytes (paint ?ob1 (4 * (int j div 4)) (diff_colour L ?q)) ! j
           else bytes ?ob1 ! j)" by simp
    have ins: "bytes (paint ?ob1 (4 * (int j div 4)) c) ! j = bytes (paint ob (4 * (int j div 4)) c) ! j" for c
      using paint_inside [OF j l1 s1] .
    show ?thesis
    proof (cases "?q \<in> set ps \<and> counted_diff L ?q")
      case True
      with e ins show ?thesis by simp
    next
      case False
      show ?thesis
      proof (cases "int j div 4 = ?i")
        case True
        then have "?q = p" using p by (simp add: pixel_of_byte_def)
        with False e True show ?thesis by auto
      next
        case ne: False
        then have "?q \<noteq> p" using p by (auto simp: pixel_of_byte_def)
        moreover have "bytes ?ob1 ! j = bytes ob ! j"
        proof (cases "counted_diff L p")
          case True
          then show ?thesis using paint_outside [OF j ne] by (simp only: if_True)
        next
          case False
          then show ?thesis by (simp only: if_False)
        qed
        ultimately show ?thesis using False e by auto
      qed
    qed
  qed
  with ob'(1,2,3) l1 s1 Cons.prems assms(1) show ?case
    by (simp add: pixel_step_mask)
qed

lemma pixels_coords:
  assumes "p \<in> set (pixels w h)"
  shows "p = ((snd p * w + fst p) mod w, (snd p * w + fst p) div w)"
proof -
  obtain x y where p: "p = (x, y)" by (cases p)
  from assms p have r: "0 \<le> x" "x < w" by (simp_all add: pixels_set)
  then have "(y * w + x) mod w = x" "(y * w + x) div w = y" by simp_all
  with p show ?thesis by simp
qed

lemma frame_under_mask_aligned:
  assumes r: "mono rnd" "rnd 0 = 0"
    and v: "validateInput img1 img2 (outputData options) = Inr ()"
    and al: "aligned img1" "aligned img2"
    and o: "outputData options = Some ob"
    and m: "diffMask options = Some True"
  shows "\<exists>r ob'. pixelmatch rnd img1 img2 options = Inr (r, Some ob') \<and>
     diffCount r =
       length (filter (counted_diff (loop_locals rnd img1 img2 options))
                 (pixels (width img1) (height img1))) \<and>
     length (bytes ob') = length (bytes ob) \<and>
     (\<forall>j < length (bytes ob).
        bytes ob' ! j =
          (if pixel_of_byte (width img1) j \<in> set (pixels (width img1) (height img1)) \<and>
              counted_diff (loop_locals rnd img1 img2 options) (pixel_of_byte (width img1) j)
           then bytes (paint ob (4 * (int j div 4))
                   (diff_colour (loop_locals rnd img1 img2 options) (pixel_of_byte (width img1) j))) ! j
           else bytes ob ! j))"
proof -
  let ?L = "loop_locals rnd img1 img2 options"
  let ?ps = "pixels (width img1) (height img1)"
  have w: "wd ?L = width img1" and h: "ht ?L = height img1" and mk: "diffMaskL ?L"
    using m by (simp_all add: loop_locals_def locals_of_def Let_def or_default_def)
  have md: "0 \<le> maxDelta ?L" unfolding loop_locals_def by (rule maxDelta_nonneg [OF r])
  show ?thesis
  proof (cases "words_identical (a32 ?L) (b32 ?L) (width img1 * height img1)")
    case True
    have none: "filter (exceeds ?L) ?ps = []"
      using identical_no_exceed [of ?L] True md by (simp add: w h)
    then have nc: "\<not> counted_diff ?L p" if "p \<in> set ?ps" for p
      using that by (auto simp: filter_empty_conv counted_diff_def)
    then have e: "filter (counted_diff ?L) ?ps = []" by (simp add: filter_empty_conv)
    have cond: "\<not> (pixel_of_byte (width img1) j \<in> set ?ps \<and>
        counted_diff ?L (pixel_of_byte (width img1) j))" for j
      using nc by blast
    show ?thesis
      using True mk o by (simp add: pixelmatch_aligned [OF v al] Let_def buildResult_def e cond)
  next
    case False
    have co: "\<forall>p \<in> set ?ps. p = ((snd p * wd ?L + fst p) mod wd ?L, (snd p * wd ?L + fst p) div wd ?L)"
      using pixels_coords [of _ "width img1" "height img1"] by (simp add: w)
    from scan_mask_output [OF mk co, of 0 0 ob] obtain ob' where ob':
      "snd (snd (scan ?L ?ps (0, 0, Some ob))) = Some ob'"
      "length (bytes ob') = length (bytes ob)"
      "\<forall>j < length (bytes ob).
        bytes ob' ! j =
          (if pixel_of_byte (width img1) j \<in> set ?ps \<and> counted_diff ?L (pixel_of_byte (width img1) j)
           then bytes (paint ob (4 * (int j div 4)) (diff_colour ?L (pixel_of_byte (width img1) j))) ! j
           else bytes ob ! j)"
      by (auto simp: w)
    with False show ?thesis
      using o by (simp add: pixelmatch_aligned [OF v al] Let_def buildResult_def w h scan_diff)
  qed
qed

text \<open>
  C10. When validation passes, an output buffer is supplied and \<open>diffMask\<close> is true, in
  binary64 arithmetic. If both views are at byte offsets that are multiples of 4, the
  comparison returns, \<open>diffCount\<close> is the number of pixels counted as differences, and
  every byte of the output whose pixel is counted in \<open>diffCount\<close> holds what drawing that
  pixel with \<open>diffColorAlt\<close> (negative delta) or \<open>diffColor\<close> writes there, while every other
  byte of the output keeps its prior value. Otherwise the comparison throws the
  \<open>RangeError\<close> before its first write, so it counts no pixel and every byte of the output
  keeps its prior value.
\<close>

theorem mask_frame:
  assumes r: "binary64_rounding rnd"
    and v: "validateInput img1 img2 (outputData options) = Inr ()"
    and o: "outputData options = Some ob"
    and m: "diffMask options = Some True"
  shows "if aligned img1 \<and> aligned img2 then
     (\<exists>r ob'. pixelmatch rnd img1 img2 options = Inr (r, Some ob') \<and>
     diffCount r =
       length (filter (counted_diff (loop_locals rnd img1 img2 options))
                 (pixels (width img1) (height img1))) \<and>
     length (bytes ob') = length (bytes ob) \<and>
     (\<forall>j < length (bytes ob).
        bytes ob' ! j =
          (if pixel_of_byte (width img1) j \<in> set (pixels (width img1) (height img1)) \<and>
              counted_diff (loop_locals rnd img1 img2 options) (pixel_of_byte (width img1) j)
           then bytes (paint ob (4 * (int j div 4))
                   (diff_colour (loop_locals rnd img1 img2 options) (pixel_of_byte (width img1) j))) ! j
           else bytes ob ! j)))
     else pixelmatch rnd img1 img2 options = Inl RangeError"
proof (cases "aligned img1 \<and> aligned img2")
  case True
  then have al: "aligned img1" "aligned img2" by simp_all
  note mz = b64_mono_zero [OF r]
  from frame_under_mask_aligned [OF conjunct1 [OF mz] conjunct2 [OF mz] v al o m] True
  show ?thesis by (simp only: if_True simp_thms)
next
  case False
  then have "\<not> aligned img1 \<or> \<not> aligned img2" by simp
  from pixelmatch_misaligned [OF v this] False show ?thesis by (simp only: if_False simp_thms)
qed

theorem mask_frame_witness:
  "binary64_rounding round_double \<and>
   validateInput \<lparr>data = Uint8Array 0 [0, 0, 0, 255, 0, 0, 0, 255], width = 2, height = 1\<rparr>
      \<lparr>data = Uint8Array 0 [255, 255, 255, 255, 0, 0, 0, 255], width = 2, height = 1\<rparr>
      (Some (Uint8Array 0 [7, 7, 7, 7, 9, 9, 9, 9])) = Inr () \<and>
   (\<exists>r ob'. pixelmatch round_double
       \<lparr>data = Uint8Array 0 [0, 0, 0, 255, 0, 0, 0, 255], width = 2, height = 1\<rparr>
       \<lparr>data = Uint8Array 0 [255, 255, 255, 255, 0, 0, 0, 255], width = 2, height = 1\<rparr>
       \<lparr> threshold = None, detectAntiAliasing = None,
         outputData = Some (Uint8Array 0 [7, 7, 7, 7, 9, 9, 9, 9]),
         diffMask = Some True, alpha = None, aaColor = None, diffColor = None, diffColorAlt = None \<rparr> =
       Inr (r, Some ob') \<and> diffCount r = 1 \<and> bytes ob' = [255, 0, 0, 255, 9, 9, 9, 9])"
proof -
  let ?d1 = "[0, 0, 0, 255, 0, 0, 0, 255] :: byte list"
  let ?d2 = "[255, 255, 255, 255, 0, 0, 0, 255] :: byte list"
  let ?ob = "Uint8Array 0 [7, 7, 7, 7, 9, 9, 9, 9]"
  let ?img1 = "\<lparr>data = Uint8Array 0 ?d1, width = 2, height = 1\<rparr>"
  let ?img2 = "\<lparr>data = Uint8Array 0 ?d2, width = 2, height = 1\<rparr>"
  let ?opts = "\<lparr> threshold = None, detectAntiAliasing = None, outputData = Some ?ob,
         diffMask = Some True, alpha = None, aaColor = None, diffColor = None, diffColorAlt = None \<rparr>"
  let ?L = "loop_locals round_double ?img1 ?img2 ?opts"
  note rd = round_double_binary64
  have v: "validateInput ?img1 ?img2 (outputData ?opts) = Inr ()"
    by (simp add: validateInput_def)
  have o: "outputData ?opts = Some ?ob" by simp
  have m: "diffMask ?opts = Some True" by simp
  have al: "aligned ?img1 \<and> aligned ?img2" by (simp add: aligned_def)
  have L: "fl ?L = round_double" "data1 ?L = ?d1" "data2 ?L = ?d2" "wd ?L = 2" "ht ?L = 1"
    "a32 ?L = words ?d1 2" "b32 ?L = words ?d2 2" "detectAA ?L"
    "maxDelta ?L = round_double (round_double (35215 * round_double 0.1) * round_double 0.1)"
    "diffC ?L = (255, 0, 0)" "altC ?L = (255, 0, 0)"
    by (simp_all add: loop_locals_def locals_of_def or_default_def Let_def)
  have w: "words ?d1 2 ! 0 \<noteq> words ?d2 2 ! 0" "words ?d1 2 ! 1 = words ?d2 2 ! 1"
    by (simp_all add: words_def word_at_def word_rcat_def)
  have pd0: "pixel_delta ?L (0, 0) = colorDelta round_double ?d1 ?d2 0 0 False"
    using w(1) by (simp add: pixel_delta_def L)
  have pd1: "pixel_delta ?L (1, 0) = 0"
    using w(2) by (simp add: pixel_delta_def L)
  have ne: "\<not> all_channels_equal ?d1 ?d2 0 0"
    by (simp add: all_channels_equal_def elem_def)
  have cd: "channel_diffs round_double ?d1 ?d2 0 0 = (- 255, - 255, - 255)"
    by (simp add: channel_diffs_def elem_def)
  have big: "8192 \<le> colorDelta round_double ?d1 ?d2 0 0 False"
    by (rule dark_delta_lower [OF rd ne cd]) simp_all
  have cut: "maxDelta ?L \<le> 1024" unfolding L(9) by (rule default_cutoff_upper [OF rd])
  have cut0: "0 \<le> maxDelta ?L"
    unfolding L(9) using b64_mono_zero [OF rd] by (intro cutoff_nonneg) simp_all
  have ex0: "exceeds ?L (0, 0)" using big cut by (simp add: exceeds_def pd0)
  have ex1: "\<not> exceeds ?L (1, 0)" using cut0 by (simp add: exceeds_def pd1)
  have n1: "colorDelta round_double ?d1 ?d1 0 4 True = 0"
    by (simp add: colorDelta_def elem_def)
  have ne2: "\<not> all_channels_equal ?d2 ?d2 0 4"
    by (simp add: all_channels_equal_def elem_def)
  have cd2: "channel_diffs round_double ?d2 ?d2 0 4 = (255, 255, 255)"
    by (simp add: channel_diffs_def elem_def)
  have n2: "0 < colorDelta round_double ?d2 ?d2 0 4 True"
    unfolding colorDelta_yOnly [OF ne2] cd2 by (rule luma_positive [OF rd]) simp_all
  have win: "window 0 0 2 1 = [(1, 0)]" by (simp add: window_def upto_rec1)
  have mn1: "min_delta round_double ?d1 0 0 2 1 = 0"
    by (simp add: min_delta_def win neighbour_delta_def n1)
  have mn2: "min_delta round_double ?d2 0 0 2 1 = 0"
    using n2 by (simp add: min_delta_def win neighbour_delta_def)
  have na1: "\<not> antialiased round_double ?d1 0 0 2 1 a b" for a b
    by (rule not_antialiased_min0 [OF _ _ _ _ mn1]) simp_all
  have na2: "\<not> antialiased round_double ?d2 0 0 2 1 a b" for a b
    by (rule not_antialiased_min0 [OF _ _ _ _ mn2]) simp_all
  have aa0: "\<not> isAA ?L (0, 0)" by (simp add: isAA_def L na1 na2)
  have c0: "counted_diff ?L (0, 0)" using ex0 aa0 by (simp add: counted_diff_def)
  have c1: "\<not> counted_diff ?L (1, 0)" using ex1 by (simp add: counted_diff_def)
  have dc: "diff_colour ?L (0, 0) = (255, 0, 0)" by (simp add: diff_colour_def L)
  have ps: "pixels 2 1 = [(0, 0), (1, 0)]" by (simp add: pixels_def upto_rec1)
  from mask_frame [OF rd v o m] al
  obtain r ob' where p: "pixelmatch round_double ?img1 ?img2 ?opts = Inr (r, Some ob')"
    and d: "diffCount r = length (filter (counted_diff ?L) (pixels (width ?img1) (height ?img1)))"
    and l: "length (bytes ob') = length (bytes ?ob)"
    and b: "\<forall>j < length (bytes ?ob).
        bytes ob' ! j =
          (if pixel_of_byte (width ?img1) j \<in> set (pixels (width ?img1) (height ?img1)) \<and>
              counted_diff ?L (pixel_of_byte (width ?img1) j)
           then bytes (paint ?ob (4 * (int j div 4)) (diff_colour ?L (pixel_of_byte (width ?img1) j))) ! j
           else bytes ?ob ! j)"
    by (simp only: if_True simp_thms) blast
  have dr: "diffCount r = 1" using d c0 c1 by (simp add: ps)
  have px: "pixel_of_byte 2 j = (if j < 4 then (0, 0) else (1, 0))" if "j < 8" for j
    using that by (auto simp: pixel_of_byte_def)
  have nth: "bytes ob' ! j = [255, 0, 0, 255, 9, 9, 9, 9] ! j" if j: "j < 8" for j
  proof -
    from b j have e: "bytes ob' ! j =
          (if pixel_of_byte 2 j \<in> set (pixels 2 1) \<and> counted_diff ?L (pixel_of_byte 2 j)
           then bytes (paint ?ob (4 * (int j div 4)) (diff_colour ?L (pixel_of_byte 2 j))) ! j
           else bytes ?ob ! j)"
      by simp
    from j consider "j = 0" | "j = 1" | "j = 2" | "j = 3" | "j = 4" | "j = 5" | "j = 6" | "j = 7"
      by linarith
    then show ?thesis
      using e
      by cases
        (simp_all add: px ps c0 c1 dc paint_def drawPixel_nth toUint8_def trunc_def)
  qed
  have "bytes ob' = [255, 0, 0, 255, 9, 9, 9, 9]"
    using l nth by (intro nth_equalityI) simp_all
  with p dr rd v show ?thesis by simp
qed


end
